theory Spec2Isabelle
  imports Complex_Main "HOL-Library.Sublist"
begin

section \<open>The Pack layout algorithm of toga (core/src/toga/style/pack.py)\<close>

text \<open>
  The theory embeds \<^verbatim>\<open>Pack.layout\<close>, \<^verbatim>\<open>Pack._layout_node\<close>,
  \<^verbatim>\<open>Pack._layout_row_children\<close> and \<^verbatim>\<open>Pack._layout_column_children\<close>.

  Numbers. Margins, explicit sizes and intrinsic sizes are Python integers (\<open>int\<close>).
  An allocation can be the result of the true division that computes the flex quantum, so
  allocations and running totals are rationals (\<open>rat\<close>); Python computes them in binary
  floating point, which the model idealises by exact arithmetic. The two agree whenever the
  quotient is a binary fraction of moderate size (for instance when the flex total is 4).
  \<^verbatim>\<open>int(x)\<close> truncates towards zero.
\<close>

subsection \<open>Style, intrinsic size and layout box\<close>

datatype direction = ROW | COLUMN

datatype text_direction = RTL | LTR

text \<open>\<^verbatim>\<open>ALIGN_ITEMS_CHOICES = Choices(START, CENTER, END)\<close>; an unset property is \<open>None\<close>.\<close>

datatype align_items = START | CENTER | END

text \<open>The deprecated \<^verbatim>\<open>ALIGNMENT_CHOICES = Choices(LEFT, RIGHT, TOP, BOTTOM, CENTER)\<close>.\<close>

datatype alignment = LEFT | RIGHT | TOP | BOTTOM | CENTER_ALIGNMENT

text \<open>
  The properties of a \<^verbatim>\<open>Pack\<close> style that the layout reads. \<^verbatim>\<open>NONE\<close> for a size is
  \<open>None\<close>. \<open>align_items_property\<close> and \<open>alignment_property\<close> are the two stored
  properties; the layout reads \<^verbatim>\<open>self.align_items\<close> through \<^verbatim>\<open>__getattribute__\<close>,
  which is \<open>align_items\<close> below.
\<close>

record style =
  direction :: direction
  width :: "int option"
  height :: "int option"
  flex :: rat
  margin_top :: int
  margin_right :: int
  margin_bottom :: int
  margin_left :: int
  align_items_property :: "align_items option"
  alignment_property :: "alignment option"
  text_direction :: text_direction

text \<open>\<^verbatim>\<open>Pack.__getattribute__\<close> for the name \<^verbatim>\<open>align_items\<close> (lines 157-177, 197).\<close>

definition align_items :: "style \<Rightarrow> align_items option" where
  "align_items st =
     (case alignment_property st of
        Some alignment \<Rightarrow>
          (if alignment = CENTER_ALIGNMENT then Some CENTER
           else if direction st = ROW then
             (if alignment = TOP then Some START
              else if alignment = BOTTOM then Some END
              else None)
           else
             (if alignment = LEFT then (if text_direction st = LTR then Some START else Some END)
              else if alignment = RIGHT then (if text_direction st = RTL then Some START else Some END)
              else None))
      | None \<Rightarrow> align_items_property st)"

text \<open>
  An intrinsic size is absent (\<open>None\<close>), a plain number, or travertino's \<^verbatim>\<open>at_least(value)\<close>,
  the only one of the two with an attribute \<^verbatim>\<open>value\<close>.
\<close>

datatype intrinsic = fixed int | at_least int

text \<open>
  A node: its style, \<^verbatim>\<open>node.intrinsic.width\<close>, \<^verbatim>\<open>node.intrinsic.height\<close> and its
  children in layout order. The node's mutable \<^verbatim>\<open>layout\<close> box lives in the state below.
\<close>

datatype node =
  Node (style: style) (intrinsic_width: "intrinsic option")
    (intrinsic_height: "intrinsic option") (children: "node list")

text \<open>
  The fields of \<^verbatim>\<open>node.layout\<close> that the algorithm assigns. Sizes are stored through
  \<^verbatim>\<open>int(...)\<close>; positions are stored as computed.
\<close>

record box =
  content_width :: int
  content_height :: int
  min_content_width :: int
  min_content_height :: int
  content_top :: rat
  content_left :: rat
  content_bottom :: rat
  content_right :: rat

text \<open>
  A node object is addressed by its position in the tree: the child indices from the node up
  to the root, so the root is \<open>[]\<close> and child \<open>i\<close> of the node at \<open>p\<close> is \<open>i # p\<close>.
\<close>

type_synonym path = "nat list"

text \<open>
  One invocation of \<^verbatim>\<open>_layout_node\<close>: the node and the four arguments, as the debug line
  at the head of \<^verbatim>\<open>_layout_node\<close> prints them.
\<close>

record call =
  call_node :: path
  call_alloc_width :: rat
  call_alloc_height :: rat
  call_use_all_width :: bool
  call_use_all_height :: bool

text \<open>
  The state the algorithm works on: the layout box of every node object, and the
  invocations of \<^verbatim>\<open>_layout_node\<close> so far, in order.
\<close>

record state =
  boxes :: "path \<Rightarrow> box"
  calls :: "call list"

subsection \<open>Arithmetic of the source\<close>

text \<open>Python's \<^verbatim>\<open>int(x)\<close> on a number: truncation towards zero.\<close>

definition py_int :: "rat \<Rightarrow> int" where
  "py_int x = (if 0 \<le> x then \<lfloor>x\<rfloor> else \<lceil>x\<rceil>)"

text \<open>
  Lines 319-344 for the width and 347-370 for the height: the available size and the minimum
  size of a node on one axis, from the explicit size, the intrinsic size, the allocation and
  the two margins of that axis.
\<close>

definition establish_available ::
  "int option \<Rightarrow> intrinsic option \<Rightarrow> rat \<Rightarrow> int \<Rightarrow> int \<Rightarrow> rat \<times> rat" where
  "establish_available specified intr alloc margin_before margin_after =
     (case specified of
        Some v \<Rightarrow> (of_int v, of_int v)
      | None \<Rightarrow>
          (let available = max 0 (alloc - of_int margin_before - of_int margin_after)
           in case intr of
                Some (at_least v) \<Rightarrow> (max available (of_int v), of_int v)
              | Some (fixed v) \<Rightarrow> (of_int v, of_int v)
              | None \<Rightarrow> (available, 0)))"

subsection \<open>Assignments to a layout box\<close>

text \<open>\<^verbatim>\<open>node.layout.field = v\<close> for the node object at \<open>p\<close>.\<close>

definition set_box :: "path \<Rightarrow> (box \<Rightarrow> box) \<Rightarrow> state \<Rightarrow> state" where
  "set_box p f s = s\<lparr>boxes := (boxes s)(p := f (boxes s p))\<rparr>"

subsection \<open>The passes of the children layouts that lay out no child\<close>

text \<open>
  Lines 532-546: the loop over the children between pass 1 and pass 2 of a row, which removes
  from the flex accounting each flex child whose flexible intrinsic width exceeds its ideal
  width. \<open>quantum\<close> is the one computed before the loop. For a plain number the read of
  \<^verbatim>\<open>.value\<close> raises \<^verbatim>\<open>AttributeError\<close>, which the loop body catches.
\<close>

fun row_pass1a :: "node list \<Rightarrow> rat \<Rightarrow> rat \<times> rat \<Rightarrow> rat \<times> rat" where
  "row_pass1a [] quantum (flex_total, min_flex) = (flex_total, min_flex)"
| "row_pass1a (child # rest) quantum (flex_total, min_flex) =
     row_pass1a rest quantum
       (if flex (style child) \<noteq> 0 \<and> intrinsic_width child \<noteq> None then
          (case intrinsic_width child of
             Some (at_least v) \<Rightarrow>
               (let ideal_width = quantum * flex (style child)
                in if of_int v > ideal_width then
                     (flex_total - flex (style child),
                      min_flex - (of_int (margin_left (style child)) + of_int v
                        + of_int (margin_right (style child))))
                   else (flex_total, min_flex))
           | _ \<Rightarrow> (flex_total, min_flex))
        else (flex_total, min_flex))"

text \<open>Lines 525-553: the flex quantum of a row.\<close>

definition row_quantum :: "node list \<Rightarrow> rat \<Rightarrow> rat \<Rightarrow> rat \<Rightarrow> rat" where
  "row_quantum cs flex_total min_flex remaining_width =
     (if flex_total > 0 then
        (let quantum = (remaining_width + min_flex) / flex_total;
             (flex_total, min_flex) = row_pass1a cs quantum (flex_total, min_flex)
         in if flex_total > 0 then (remaining_width + min_flex) / flex_total else 0)
      else 0)"

text \<open>
  Lines 640-668, pass 3 of a row: the horizontal position of each child, the height and the
  minimum height of the row. The accumulator is \<open>(offset, height, min_height)\<close>;
  \<open>td\<close> is \<^verbatim>\<open>node.style.text_direction\<close> and \<open>width'\<close> the width of the row.
\<close>

fun row_pass3 ::
  "node list \<Rightarrow> nat \<Rightarrow> path \<Rightarrow> text_direction \<Rightarrow> rat \<Rightarrow> rat \<times> rat \<times> rat \<Rightarrow> state
    \<Rightarrow> (rat \<times> rat \<times> rat) \<times> state" where
  "row_pass3 [] i p td width' acc s = (acc, s)"
| "row_pass3 (child # rest) i p td width' (offset, height', min_height) s =
     (let (offset, s) =
            (if td = RTL then
               (let offset = offset + of_int (content_width (boxes s (i # p)))
                      + of_int (margin_right (style child));
                    s = set_box (i # p) (\<lambda>b. b\<lparr>content_left := width' - offset\<rparr>) s;
                    offset = offset + of_int (margin_left (style child))
                in (offset, s))
             else
               (let offset = offset + of_int (margin_left (style child));
                    s = set_box (i # p) (\<lambda>b. b\<lparr>content_left := offset\<rparr>) s;
                    offset = offset + of_int (content_width (boxes s (i # p)))
                      + of_int (margin_right (style child))
                in (offset, s)));
          child_height = of_int (margin_top (style child))
            + of_int (content_height (boxes s (i # p)))
            + of_int (margin_bottom (style child));
          height' = max height' child_height;
          min_child_height = of_int (margin_top (style child))
            + of_int (min_content_height (boxes s (i # p)))
            + of_int (margin_bottom (style child));
          min_height = max min_height min_child_height
      in row_pass3 rest (Suc i) p td width' (offset, height', min_height) s)"

text \<open>
  Lines 676-692, pass 4 of a row: the vertical position of each child. \<open>align\<close> is
  \<^verbatim>\<open>self.align_items\<close> and \<open>height'\<close> the height of the row.
\<close>

fun row_pass4 ::
  "node list \<Rightarrow> nat \<Rightarrow> path \<Rightarrow> align_items option \<Rightarrow> rat \<Rightarrow> state \<Rightarrow> state" where
  "row_pass4 [] i p align height' s = s"
| "row_pass4 (child # rest) i p align height' s =
     (let extra = height' - (of_int (content_height (boxes s (i # p)))
            + of_int (margin_top (style child))
            + of_int (margin_bottom (style child)));
          s = (if align = Some END then
                 set_box (i # p)
                   (\<lambda>b. b\<lparr>content_top := extra + of_int (margin_top (style child))\<rparr>) s
               else if align = Some CENTER then
                 set_box (i # p)
                   (\<lambda>b. b\<lparr>content_top :=
                      of_int (py_int (extra / 2)) + of_int (margin_top (style child))\<rparr>) s
               else
                 set_box (i # p)
                   (\<lambda>b. b\<lparr>content_top := of_int (margin_top (style child))\<rparr>) s)
      in row_pass4 rest (Suc i) p align height' s)"

text \<open>Lines 818-832: the same loop between pass 1 and pass 2 of a column.\<close>

fun column_pass1a :: "node list \<Rightarrow> rat \<Rightarrow> rat \<times> rat \<Rightarrow> rat \<times> rat" where
  "column_pass1a [] quantum (flex_total, min_flex) = (flex_total, min_flex)"
| "column_pass1a (child # rest) quantum (flex_total, min_flex) =
     column_pass1a rest quantum
       (if flex (style child) \<noteq> 0 \<and> intrinsic_height child \<noteq> None then
          (case intrinsic_height child of
             Some (at_least v) \<Rightarrow>
               (let ideal_height = quantum * flex (style child)
                in if of_int v > ideal_height then
                     (flex_total - flex (style child),
                      min_flex - (of_int (margin_top (style child)) + of_int v
                        + of_int (margin_bottom (style child))))
                   else (flex_total, min_flex))
           | _ \<Rightarrow> (flex_total, min_flex))
        else (flex_total, min_flex))"

text \<open>Lines 811-839: the flex quantum of a column.\<close>

definition column_quantum :: "node list \<Rightarrow> rat \<Rightarrow> rat \<Rightarrow> rat \<Rightarrow> rat" where
  "column_quantum cs flex_total min_flex remaining_height =
     (if flex_total > 0 then
        (let quantum = (remaining_height + min_flex) / flex_total;
             (flex_total, min_flex) = column_pass1a cs quantum (flex_total, min_flex)
         in if flex_total > 0 then (min_flex + remaining_height) / flex_total else 0)
      else 0)"

text \<open>
  Lines 928-948, pass 3 of a column: the vertical position of each child, the width and the
  minimum width of the column. The accumulator is \<open>(offset, width, min_width)\<close>.
\<close>

fun column_pass3 ::
  "node list \<Rightarrow> nat \<Rightarrow> path \<Rightarrow> rat \<times> rat \<times> rat \<Rightarrow> state \<Rightarrow> (rat \<times> rat \<times> rat) \<times> state" where
  "column_pass3 [] i p acc s = (acc, s)"
| "column_pass3 (child # rest) i p (offset, width', min_width) s =
     (let offset = offset + of_int (margin_top (style child));
          s = set_box (i # p) (\<lambda>b. b\<lparr>content_top := offset\<rparr>) s;
          offset = offset + of_int (content_height (boxes s (i # p)))
            + of_int (margin_bottom (style child));
          child_width = of_int (content_width (boxes s (i # p)))
            + of_int (margin_left (style child))
            + of_int (margin_right (style child));
          width' = max width' child_width;
          min_child_width = of_int (margin_left (style child))
            + of_int (min_content_width (boxes s (i # p)))
            + of_int (margin_right (style child));
          min_width = max min_width min_child_width
      in column_pass3 rest (Suc i) p (offset, width', min_width) s)"

text \<open>
  Lines 956-972, pass 4 of a column: the horizontal position of each child. \<open>td\<close> is
  \<^verbatim>\<open>self.text_direction\<close>, \<open>align\<close> is \<^verbatim>\<open>self.align_items\<close> and \<open>width'\<close> the width of
  the column.
\<close>

fun column_pass4 ::
  "node list \<Rightarrow> nat \<Rightarrow> path \<Rightarrow> text_direction \<Rightarrow> align_items option \<Rightarrow> rat \<Rightarrow> state
    \<Rightarrow> state" where
  "column_pass4 [] i p td align width' s = s"
| "column_pass4 (child # rest) i p td align width' s =
     (let extra = width' - (of_int (content_width (boxes s (i # p)))
            + of_int (margin_left (style child))
            + of_int (margin_right (style child)));
          s = (if (td, align) \<in> set [(LTR, Some END), (RTL, Some START)] then
                 set_box (i # p)
                   (\<lambda>b. b\<lparr>content_left := extra + of_int (margin_left (style child))\<rparr>) s
               else if align = Some CENTER then
                 set_box (i # p)
                   (\<lambda>b. b\<lparr>content_left :=
                      of_int (py_int (extra / 2)) + of_int (margin_left (style child))\<rparr>) s
               else
                 set_box (i # p)
                   (\<lambda>b. b\<lparr>content_left := of_int (margin_left (style child))\<rparr>) s)
      in column_pass4 rest (Suc i) p td align width' s)"

subsection \<open>The children layouts\<close>

text \<open>
  \<^verbatim>\<open>_layout_row_children\<close> (lines 414-694) and \<^verbatim>\<open>_layout_column_children\<close>
  (lines 696-974) lay a child out by calling \<^verbatim>\<open>child.style._layout_node(child, ...)\<close>.
  In the passes below this method is the parameter \<open>layout_child\<close>; \<open>layout_node\<close>
  passes itself for it. \<open>q\<close> is the address of the child. Truth tests of the source on
  numbers (\<^verbatim>\<open>if child.style.flex\<close>, \<^verbatim>\<open>if quantum\<close>) are tests against zero.
\<close>

type_synonym layout_method = "node \<Rightarrow> path \<Rightarrow> rat \<Rightarrow> rat \<Rightarrow> bool \<Rightarrow> bool \<Rightarrow> state \<Rightarrow> state"

text \<open>
  Lines 432-520, the body of the loop of pass 1 of a row. The accumulator is
  \<open>(flex_total, min_flex, width, min_width, remaining_width)\<close>.
\<close>

definition row_pass1_child ::
  "layout_method \<Rightarrow> node \<Rightarrow> path \<Rightarrow> rat \<Rightarrow> rat \<times> rat \<times> rat \<times> rat \<times> rat \<Rightarrow> state
    \<Rightarrow> (rat \<times> rat \<times> rat \<times> rat \<times> rat) \<times> state" where
  "row_pass1_child layout_child child q available_height acc s =
     (case acc of (flex_total, min_flex, width', min_width, remaining_width) \<Rightarrow>
      (let (flex_total, min_flex, child_content_width, min_child_content_width, s) =
            (if width (style child) \<noteq> None then
               (let s = layout_child child q remaining_width available_height
                      False (direction (style child) = ROW) s
                in (flex_total, min_flex,
                    of_int (content_width (boxes s q)),
                    of_int (content_width (boxes s q)), s))
             else
               (case intrinsic_width child of
                  Some (at_least v) \<Rightarrow>
                    (if flex (style child) \<noteq> 0 then
                       (flex_total + flex (style child),
                        min_flex + (of_int (margin_left (style child)) + of_int v
                          + of_int (margin_right (style child))),
                        of_int v, of_int v, s)
                     else
                       (let s = layout_child child q 0 available_height
                              False (direction (style child) = ROW) s
                        in (flex_total, min_flex,
                            of_int (content_width (boxes s q)),
                            of_int (content_width (boxes s q)), s)))
                | Some (fixed v) \<Rightarrow>
                    (let s = layout_child child q remaining_width available_height
                           False (direction (style child) = ROW) s
                     in (flex_total, min_flex,
                         of_int (content_width (boxes s q)),
                         of_int (content_width (boxes s q)), s))
                | None \<Rightarrow>
                    (if flex (style child) \<noteq> 0 then
                       (flex_total + flex (style child), min_flex, 0, 0, s)
                     else
                       (let s = layout_child child q remaining_width available_height
                              False (direction (style child) = ROW) s
                        in (flex_total, min_flex,
                            of_int (content_width (boxes s q)),
                            of_int (min_content_width (boxes s q)), s)))));
          child_width = of_int (margin_left (style child)) + child_content_width
            + of_int (margin_right (style child));
          min_child_width = of_int (margin_left (style child)) + min_child_content_width
            + of_int (margin_right (style child))
      in ((flex_total, min_flex, width' + child_width, min_width + min_child_width,
           remaining_width - child_width), s)))"

text \<open>Lines 431-520, pass 1 of a row; \<open>i\<close> is the index of the first child of the list.\<close>

fun row_pass1 ::
  "layout_method \<Rightarrow> node list \<Rightarrow> nat \<Rightarrow> path \<Rightarrow> rat \<Rightarrow> rat \<times> rat \<times> rat \<times> rat \<times> rat \<Rightarrow> state
    \<Rightarrow> (rat \<times> rat \<times> rat \<times> rat \<times> rat) \<times> state" where
  "row_pass1 layout_child [] i p available_height acc s = (acc, s)"
| "row_pass1 layout_child (child # rest) i p available_height acc s =
     (case row_pass1_child layout_child child (i # p) available_height acc s of
        (acc, s) \<Rightarrow> row_pass1 layout_child rest (Suc i) p available_height acc s)"

text \<open>
  Lines 559-630, the body of the loop of pass 2 of a row. The accumulator is
  \<open>(width, min_width)\<close>.
\<close>

definition row_pass2_child ::
  "layout_method \<Rightarrow> node \<Rightarrow> path \<Rightarrow> rat \<Rightarrow> rat \<Rightarrow> rat \<times> rat \<Rightarrow> state \<Rightarrow> (rat \<times> rat) \<times> state" where
  "row_pass2_child layout_child child q available_height quantum acc s =
     (case acc of (width', min_width) \<Rightarrow>
       (if width (style child) \<noteq> None then ((width', min_width), s)
        else if flex (style child) \<noteq> 0 then
          (case intrinsic_width child of
             Some (at_least v) \<Rightarrow>
               (let child_alloc_width = of_int (margin_left (style child)) + of_int v
                      + of_int (margin_right (style child));
                    ideal_width = quantum * flex (style child);
                    child_alloc_width =
                      (if ideal_width > child_alloc_width then ideal_width
                       else child_alloc_width);
                    s = layout_child child q child_alloc_width available_height
                          True (direction (style child) = ROW) s
                in ((width' - of_int v + of_int (content_width (boxes s q)),
                     min_width - of_int v + of_int (min_content_width (boxes s q))), s))
           | Some (fixed v) \<Rightarrow> ((width', min_width), s)
           | None \<Rightarrow>
               (let child_alloc_width =
                      (if quantum \<noteq> 0 then quantum * flex (style child)
                       else of_int (margin_left (style child))
                         + of_int (margin_right (style child)));
                    s = layout_child child q child_alloc_width available_height
                          True (direction (style child) = ROW) s
                in ((width' + of_int (content_width (boxes s q)),
                     min_width + of_int (min_content_width (boxes s q))), s)))
        else ((width', min_width), s)))"

text \<open>Lines 558-630, pass 2 of a row.\<close>

fun row_pass2 ::
  "layout_method \<Rightarrow> node list \<Rightarrow> nat \<Rightarrow> path \<Rightarrow> rat \<Rightarrow> rat \<Rightarrow> rat \<times> rat \<Rightarrow> state
    \<Rightarrow> (rat \<times> rat) \<times> state" where
  "row_pass2 layout_child [] i p available_height quantum acc s = (acc, s)"
| "row_pass2 layout_child (child # rest) i p available_height quantum acc s =
     (case row_pass2_child layout_child child (i # p) available_height quantum acc s of
        (acc, s) \<Rightarrow> row_pass2 layout_child rest (Suc i) p available_height quantum acc s)"

text \<open>
  \<^verbatim>\<open>_layout_row_children\<close>; \<^verbatim>\<open>self\<close> is the style of \<open>node'\<close>. It returns
  \<open>(min_width, width, min_height, height)\<close>.
\<close>

definition layout_row_children ::
  "layout_method \<Rightarrow> node \<Rightarrow> path \<Rightarrow> rat \<Rightarrow> rat \<Rightarrow> bool \<Rightarrow> bool \<Rightarrow> state
    \<Rightarrow> (rat \<times> rat \<times> rat \<times> rat) \<times> state" where
  "layout_row_children layout_child node' p available_width available_height
       use_all_width use_all_height s =
     (let ((flex_total, min_flex, width', min_width, remaining_width), s) =
            row_pass1 layout_child (children node') 0 p available_height
              (0, 0, 0, 0, available_width) s;
          quantum = row_quantum (children node') flex_total min_flex remaining_width;
          ((width', min_width), s) =
            row_pass2 layout_child (children node') 0 p available_height quantum
              (width', min_width) s;
          width' = (if use_all_width then max width' available_width else width');
          ((offset, height', min_height), s) =
            row_pass3 (children node') 0 p (text_direction (style node')) width' (0, 0, 0) s;
          height' = (if use_all_height then max height' available_height else height');
          s = row_pass4 (children node') 0 p (align_items (style node')) height' s
      in ((min_width, width', min_height, height'), s))"

text \<open>
  Lines 714-806, the body of the loop of pass 1 of a column. The accumulator is
  \<open>(flex_total, min_flex, height, min_height, remaining_height)\<close>.
\<close>

definition column_pass1_child ::
  "layout_method \<Rightarrow> node \<Rightarrow> path \<Rightarrow> rat \<Rightarrow> rat \<times> rat \<times> rat \<times> rat \<times> rat \<Rightarrow> state
    \<Rightarrow> (rat \<times> rat \<times> rat \<times> rat \<times> rat) \<times> state" where
  "column_pass1_child layout_child child q available_width acc s =
     (case acc of (flex_total, min_flex, height', min_height, remaining_height) \<Rightarrow>
      (let (flex_total, min_flex, child_content_height, min_child_content_height, s) =
            (if height (style child) \<noteq> None then
               (let s = layout_child child q available_width remaining_height
                      (direction (style child) = COLUMN) False s
                in (flex_total, min_flex,
                    of_int (content_height (boxes s q)),
                    of_int (content_height (boxes s q)), s))
             else
               (case intrinsic_height child of
                  Some (at_least v) \<Rightarrow>
                    (if flex (style child) \<noteq> 0 then
                       (let child_content_height = of_int v
                        in (flex_total + flex (style child),
                            min_flex + (of_int (margin_top (style child)) + child_content_height
                              + of_int (margin_bottom (style child))),
                            child_content_height, of_int v, s))
                     else
                       (let s = layout_child child q available_width 0
                              (direction (style child) = COLUMN) False s
                        in (flex_total, min_flex,
                            of_int (content_height (boxes s q)),
                            of_int (content_height (boxes s q)), s)))
                | Some (fixed v) \<Rightarrow>
                    (let s = layout_child child q available_width remaining_height
                           (direction (style child) = COLUMN) False s
                     in (flex_total, min_flex,
                         of_int (content_height (boxes s q)),
                         of_int (content_height (boxes s q)), s))
                | None \<Rightarrow>
                    (if flex (style child) \<noteq> 0 then
                       (flex_total + flex (style child), min_flex, 0, 0, s)
                     else
                       (let s = layout_child child q available_width remaining_height
                              (direction (style child) = COLUMN) False s
                        in (flex_total, min_flex,
                            of_int (content_height (boxes s q)),
                            of_int (min_content_height (boxes s q)), s)))));
          child_height = of_int (margin_top (style child)) + child_content_height
            + of_int (margin_bottom (style child));
          min_child_height = of_int (margin_top (style child)) + min_child_content_height
            + of_int (margin_bottom (style child))
      in ((flex_total, min_flex, height' + child_height, min_height + min_child_height,
           remaining_height - child_height), s)))"

text \<open>Lines 713-806, pass 1 of a column.\<close>

fun column_pass1 ::
  "layout_method \<Rightarrow> node list \<Rightarrow> nat \<Rightarrow> path \<Rightarrow> rat \<Rightarrow> rat \<times> rat \<times> rat \<times> rat \<times> rat \<Rightarrow> state
    \<Rightarrow> (rat \<times> rat \<times> rat \<times> rat \<times> rat) \<times> state" where
  "column_pass1 layout_child [] i p available_width acc s = (acc, s)"
| "column_pass1 layout_child (child # rest) i p available_width acc s =
     (case column_pass1_child layout_child child (i # p) available_width acc s of
        (acc, s) \<Rightarrow> column_pass1 layout_child rest (Suc i) p available_width acc s)"

text \<open>
  Lines 846-918, the body of the loop of pass 2 of a column. The accumulator is
  \<open>(height, min_height)\<close>.
\<close>

definition column_pass2_child ::
  "layout_method \<Rightarrow> node \<Rightarrow> path \<Rightarrow> rat \<Rightarrow> rat \<Rightarrow> rat \<times> rat \<Rightarrow> state \<Rightarrow> (rat \<times> rat) \<times> state" where
  "column_pass2_child layout_child child q available_width quantum acc s =
     (case acc of (height', min_height) \<Rightarrow>
       (if height (style child) \<noteq> None then ((height', min_height), s)
        else if flex (style child) \<noteq> 0 then
          (case intrinsic_height child of
             Some (at_least v) \<Rightarrow>
               (let child_alloc_height = of_int (margin_top (style child)) + of_int v
                      + of_int (margin_bottom (style child));
                    ideal_height = quantum * flex (style child);
                    child_alloc_height =
                      (if ideal_height > child_alloc_height then ideal_height
                       else child_alloc_height);
                    s = layout_child child q available_width child_alloc_height
                          (direction (style child) = COLUMN) True s
                in ((height' - of_int v + of_int (content_height (boxes s q)),
                     min_height - of_int v + of_int (min_content_height (boxes s q))), s))
           | Some (fixed v) \<Rightarrow> ((height', min_height), s)
           | None \<Rightarrow>
               (let child_alloc_height =
                      (if quantum \<noteq> 0 then quantum * flex (style child)
                       else of_int (margin_top (style child))
                         + of_int (margin_bottom (style child)));
                    s = layout_child child q available_width child_alloc_height
                          (direction (style child) = COLUMN) True s
                in ((height' + of_int (content_height (boxes s q)),
                     min_height + of_int (min_content_height (boxes s q))), s)))
        else ((height', min_height), s)))"

text \<open>Lines 845-918, pass 2 of a column.\<close>

fun column_pass2 ::
  "layout_method \<Rightarrow> node list \<Rightarrow> nat \<Rightarrow> path \<Rightarrow> rat \<Rightarrow> rat \<Rightarrow> rat \<times> rat \<Rightarrow> state
    \<Rightarrow> (rat \<times> rat) \<times> state" where
  "column_pass2 layout_child [] i p available_width quantum acc s = (acc, s)"
| "column_pass2 layout_child (child # rest) i p available_width quantum acc s =
     (case column_pass2_child layout_child child (i # p) available_width quantum acc s of
        (acc, s) \<Rightarrow> column_pass2 layout_child rest (Suc i) p available_width quantum acc s)"

text \<open>\<^verbatim>\<open>_layout_column_children\<close>; it returns \<open>(min_width, width, min_height, height)\<close>.\<close>

definition layout_column_children ::
  "layout_method \<Rightarrow> node \<Rightarrow> path \<Rightarrow> rat \<Rightarrow> rat \<Rightarrow> bool \<Rightarrow> bool \<Rightarrow> state
    \<Rightarrow> (rat \<times> rat \<times> rat \<times> rat) \<times> state" where
  "layout_column_children layout_child node' p available_width available_height
       use_all_width use_all_height s =
     (let ((flex_total, min_flex, height', min_height, remaining_height), s) =
            column_pass1 layout_child (children node') 0 p available_width
              (0, 0, 0, 0, available_height) s;
          quantum = column_quantum (children node') flex_total min_flex remaining_height;
          ((height', min_height), s) =
            column_pass2 layout_child (children node') 0 p available_width quantum
              (height', min_height) s;
          height' = (if use_all_height then max height' available_height else height');
          ((offset, width', min_width), s) = column_pass3 (children node') 0 p (0, 0, 0) s;
          width' = (if use_all_width then max width' available_width else width');
          s = column_pass4 (children node') 0 p (text_direction (style node'))
                (align_items (style node')) width' s
      in ((min_width, width', min_height, height'), s))"

text \<open>The children layouts call the method on children of the node only.\<close>

lemma row_pass1_child_cong:
  assumes "\<And>q a b u v t. f c q a b u v t = g c q a b u v t"
  shows "row_pass1_child f c q ah acc s = row_pass1_child g c q ah acc s"
proof -
  have "f c = g c"
    by (intro ext) (rule assms)
  then show ?thesis
    unfolding row_pass1_child_def by (rule arg_cong [where f = "\<lambda>h. _ h"])
qed

lemma row_pass1_cong:
  "(\<And>c q a b u v t. c \<in> set cs \<Longrightarrow> f c q a b u v t = g c q a b u v t)
    \<Longrightarrow> row_pass1 f cs i p ah acc s = row_pass1 g cs i p ah acc s"
proof (induction cs arbitrary: i acc s)
  case Nil
  show ?case by simp
next
  case (Cons c cs)
  have "row_pass1_child f c (i # p) ah acc s = row_pass1_child g c (i # p) ah acc s"
    by (rule row_pass1_child_cong) (simp add: Cons.prems)
  moreover have "\<And>i acc s. row_pass1 f cs i p ah acc s = row_pass1 g cs i p ah acc s"
    by (rule Cons.IH) (simp add: Cons.prems)
  ultimately show ?case by (simp split: prod.split)
qed

lemma row_pass2_child_cong:
  assumes "\<And>q a b u v t. f c q a b u v t = g c q a b u v t"
  shows "row_pass2_child f c q ah qu acc s = row_pass2_child g c q ah qu acc s"
proof -
  have "f c = g c"
    by (intro ext) (rule assms)
  then show ?thesis
    unfolding row_pass2_child_def by (rule arg_cong [where f = "\<lambda>h. _ h"])
qed

lemma row_pass2_cong:
  "(\<And>c q a b u v t. c \<in> set cs \<Longrightarrow> f c q a b u v t = g c q a b u v t)
    \<Longrightarrow> row_pass2 f cs i p ah qu acc s = row_pass2 g cs i p ah qu acc s"
proof (induction cs arbitrary: i acc s)
  case Nil
  show ?case by simp
next
  case (Cons c cs)
  have "row_pass2_child f c (i # p) ah qu acc s = row_pass2_child g c (i # p) ah qu acc s"
    by (rule row_pass2_child_cong) (simp add: Cons.prems)
  moreover have "\<And>i acc s. row_pass2 f cs i p ah qu acc s = row_pass2 g cs i p ah qu acc s"
    by (rule Cons.IH) (simp add: Cons.prems)
  ultimately show ?case by (simp split: prod.split)
qed

lemma column_pass1_child_cong:
  assumes "\<And>q a b u v t. f c q a b u v t = g c q a b u v t"
  shows "column_pass1_child f c q aw acc s = column_pass1_child g c q aw acc s"
proof -
  have "f c = g c"
    by (intro ext) (rule assms)
  then show ?thesis
    unfolding column_pass1_child_def by (rule arg_cong [where f = "\<lambda>h. _ h"])
qed

lemma column_pass1_cong:
  "(\<And>c q a b u v t. c \<in> set cs \<Longrightarrow> f c q a b u v t = g c q a b u v t)
    \<Longrightarrow> column_pass1 f cs i p aw acc s = column_pass1 g cs i p aw acc s"
proof (induction cs arbitrary: i acc s)
  case Nil
  show ?case by simp
next
  case (Cons c cs)
  have "column_pass1_child f c (i # p) aw acc s = column_pass1_child g c (i # p) aw acc s"
    by (rule column_pass1_child_cong) (simp add: Cons.prems)
  moreover have "\<And>i acc s. column_pass1 f cs i p aw acc s = column_pass1 g cs i p aw acc s"
    by (rule Cons.IH) (simp add: Cons.prems)
  ultimately show ?case by (simp split: prod.split)
qed

lemma column_pass2_child_cong:
  assumes "\<And>q a b u v t. f c q a b u v t = g c q a b u v t"
  shows "column_pass2_child f c q aw qu acc s = column_pass2_child g c q aw qu acc s"
proof -
  have "f c = g c"
    by (intro ext) (rule assms)
  then show ?thesis
    unfolding column_pass2_child_def by (rule arg_cong [where f = "\<lambda>h. _ h"])
qed

lemma column_pass2_cong:
  "(\<And>c q a b u v t. c \<in> set cs \<Longrightarrow> f c q a b u v t = g c q a b u v t)
    \<Longrightarrow> column_pass2 f cs i p aw qu acc s = column_pass2 g cs i p aw qu acc s"
proof (induction cs arbitrary: i acc s)
  case Nil
  show ?case by simp
next
  case (Cons c cs)
  have "column_pass2_child f c (i # p) aw qu acc s = column_pass2_child g c (i # p) aw qu acc s"
    by (rule column_pass2_child_cong) (simp add: Cons.prems)
  moreover have "\<And>i acc s. column_pass2 f cs i p aw qu acc s = column_pass2 g cs i p aw qu acc s"
    by (rule Cons.IH) (simp add: Cons.prems)
  ultimately show ?case by (simp split: prod.split)
qed

lemma layout_row_children_cong [fundef_cong]:
  assumes "n = n'" "p = p'" "aw = aw'" "ah = ah'" "uw = uw'" "uh = uh'" "s = s'"
    and "\<And>c q a b u v t. c \<in> set (children n') \<Longrightarrow> f c q a b u v t = g c q a b u v t"
  shows "layout_row_children f n p aw ah uw uh s = layout_row_children g n' p' aw' ah' uw' uh' s'"
  unfolding layout_row_children_def assms(1-7)
  by (simp add: row_pass1_cong [of _ f g, OF assms(8)] row_pass2_cong [of _ f g, OF assms(8)])

lemma layout_column_children_cong [fundef_cong]:
  assumes "n = n'" "p = p'" "aw = aw'" "ah = ah'" "uw = uw'" "uh = uh'" "s = s'"
    and "\<And>c q a b u v t. c \<in> set (children n') \<Longrightarrow> f c q a b u v t = g c q a b u v t"
  shows "layout_column_children f n p aw ah uw uh s
    = layout_column_children g n' p' aw' ah' uw' uh' s'"
  unfolding layout_column_children_def assms(1-7)
  by (simp add: column_pass1_cong [of _ f g, OF assms(8)]
      column_pass2_cong [of _ f g, OF assms(8)])

subsection \<open>The layout of a node\<close>

text \<open>\<^verbatim>\<open>_layout_node\<close> (lines 302-412). Its first step records the invocation.\<close>

fun layout_node :: "layout_method" where
  "layout_node (Node st iw ih cs) p alloc_width alloc_height use_all_width use_all_height s =
     (let s = s\<lparr>calls := calls s @
            [\<lparr>call_node = p, call_alloc_width = alloc_width, call_alloc_height = alloc_height,
              call_use_all_width = use_all_width, call_use_all_height = use_all_height\<rparr>]\<rparr>;
          (available_width, min_width) =
            establish_available (width st) iw alloc_width (margin_left st) (margin_right st);
          (available_height, min_height) =
            establish_available (height st) ih alloc_height (margin_top st) (margin_bottom st);
          ((min_width, width', min_height, height'), s) =
            (if cs \<noteq> [] then
               (if direction st = COLUMN then
                  layout_column_children layout_node (Node st iw ih cs) p
                    available_width available_height use_all_width use_all_height s
                else
                  layout_row_children layout_node (Node st iw ih cs) p
                    available_width available_height use_all_width use_all_height s)
             else ((min_width, available_width, min_height, available_height), s));
          (width', min_width) =
            (case width st of Some v \<Rightarrow> (of_int v, of_int v) | None \<Rightarrow> (width', min_width));
          (height', min_height) =
            (case height st of Some v \<Rightarrow> (of_int v, of_int v) | None \<Rightarrow> (height', min_height))
      in set_box p
           (\<lambda>b. b\<lparr>content_width := py_int width', content_height := py_int height',
                  min_content_width := py_int min_width,
                  min_content_height := py_int min_height\<rparr>) s)"

declare layout_node.simps [simp del]

text \<open>
  \<^verbatim>\<open>Pack.layout\<close> (lines 282-300): the root is laid out in the whole viewport and placed
  at its margins.
\<close>

record viewport =
  viewport_width :: int
  viewport_height :: int

definition layout :: "node \<Rightarrow> viewport \<Rightarrow> state \<Rightarrow> state" where
  "layout node' vp s =
     (let s = layout_node node' [] (of_int (viewport_width vp)) (of_int (viewport_height vp))
            True True s;
          s = set_box [] (\<lambda>b. b\<lparr>content_top := of_int (margin_top (style node'))\<rparr>) s;
          s = set_box [] (\<lambda>b. b\<lparr>content_bottom := of_int (margin_bottom (style node'))\<rparr>) s;
          s = set_box [] (\<lambda>b. b\<lparr>content_left := of_int (margin_left (style node'))\<rparr>) s;
          s = set_box [] (\<lambda>b. b\<lparr>content_right := of_int (margin_right (style node'))\<rparr>) s
      in s)"

subsection \<open>Initial values\<close>

text \<open>
  The initial values of the style properties (lines 1054-1075): a row, no explicit size, no
  flex, no margins, no alignment, left to right.
\<close>

definition initial_style :: style where
  "initial_style =
     \<lparr>direction = ROW, width = None, height = None, flex = 0,
      margin_top = 0, margin_right = 0, margin_bottom = 0, margin_left = 0,
      align_items_property = None, alignment_property = None, text_direction = LTR\<rparr>"

text \<open>A layout box before any layout (all fields zero), and a state of such boxes.\<close>

definition initial_box :: box where
  "initial_box =
     \<lparr>content_width = 0, content_height = 0, min_content_width = 0, min_content_height = 0,
      content_top = 0, content_left = 0, content_bottom = 0, content_right = 0\<rparr>"

definition initial_state :: state where
  "initial_state = \<lparr>boxes = (\<lambda>p. initial_box), calls = []\<rparr>"

section \<open>Properties\<close>

subsection \<open>Basic facts\<close>

lemma boxes_set_box [simp]:
  "boxes (set_box p f s) r = (if r = p then f (boxes s p) else boxes s r)"
  by (simp add: set_box_def)

lemma calls_set_box [simp]: "calls (set_box p f s) = calls s"
  by (simp add: set_box_def)


lemma py_int_of_int [simp]: "py_int (of_int k) = k"
  by (simp add: py_int_def)

lemma py_int_mono: "x \<le> y \<Longrightarrow> py_int x \<le> py_int y"
  unfolding py_int_def
  by (auto intro: floor_mono ceiling_mono order_trans [OF ceiling_mono, of _ 0] simp: not_le)

text \<open>Pass 3 and pass 4 assign positions of children only.\<close>

lemma row_pass3_Cons:
  "\<exists>acc' x. row_pass3 (c # cs) i p td w acc s =
     row_pass3 cs (Suc i) p td w acc' (set_box (i # p) (\<lambda>b. b\<lparr>content_left := x\<rparr>) s)"
  by (cases acc; cases td; simp add: Let_def; intro exI; rule refl)

lemma row_pass3_boxes:
  "boxes (snd (row_pass3 cs i p td w acc s)) r
    = (boxes s r)\<lparr>content_left := content_left (boxes (snd (row_pass3 cs i p td w acc s)) r)\<rparr>"
proof (induction cs arbitrary: i acc s)
  case Nil
  show ?case by simp
next
  case (Cons c cs)
  obtain acc' x where step: "row_pass3 (c # cs) i p td w acc s =
     row_pass3 cs (Suc i) p td w acc' (set_box (i # p) (\<lambda>b. b\<lparr>content_left := x\<rparr>) s)"
    using row_pass3_Cons by blast
  let ?s1 = "set_box (i # p) (\<lambda>b. b\<lparr>content_left := x\<rparr>) s"
  let ?s' = "snd (row_pass3 cs (Suc i) p td w acc' ?s1)"
  have "boxes ?s' r = (boxes ?s1 r)\<lparr>content_left := content_left (boxes ?s' r)\<rparr>"
    by (rule Cons.IH)
  also have "\<dots> = (boxes s r)\<lparr>content_left := content_left (boxes ?s' r)\<rparr>"
    by simp
  finally show ?case
    unfolding step .
qed



lemma row_pass3_other:
  "(\<And>k. i \<le> k \<Longrightarrow> r \<noteq> k # p)
    \<Longrightarrow> boxes (snd (row_pass3 cs i p td w acc s)) r = boxes s r"
proof (induction cs arbitrary: i acc s)
  case Nil
  show ?case by simp
next
  case (Cons c cs)
  obtain acc' x where step: "row_pass3 (c # cs) i p td w acc s =
     row_pass3 cs (Suc i) p td w acc' (set_box (i # p) (\<lambda>b. b\<lparr>content_left := x\<rparr>) s)"
    using row_pass3_Cons by blast
  have "r \<noteq> i # p"
    using Cons.prems [of i] by simp
  moreover have "\<And>k. Suc i \<le> k \<Longrightarrow> r \<noteq> k # p"
    using Cons.prems by simp
  ultimately show ?case
    unfolding step by (simp add: Cons.IH)
qed

lemma row_pass4_Cons:
  "\<exists>x. row_pass4 (c # cs) i p al h s =
     row_pass4 cs (Suc i) p al h (set_box (i # p) (\<lambda>b. b\<lparr>content_top := x\<rparr>) s)"
  by (simp add: Let_def; intro conjI impI exI; rule refl)

lemma row_pass4_boxes:
  "boxes (row_pass4 cs i p al h s) r
    = (boxes s r)\<lparr>content_top := content_top (boxes (row_pass4 cs i p al h s) r)\<rparr>"
proof (induction cs arbitrary: i s)
  case Nil
  show ?case by simp
next
  case (Cons c cs)
  obtain x where step: "row_pass4 (c # cs) i p al h s =
     row_pass4 cs (Suc i) p al h (set_box (i # p) (\<lambda>b. b\<lparr>content_top := x\<rparr>) s)"
    using row_pass4_Cons by blast
  let ?s1 = "set_box (i # p) (\<lambda>b. b\<lparr>content_top := x\<rparr>) s"
  let ?s' = "row_pass4 cs (Suc i) p al h ?s1"
  have "boxes ?s' r = (boxes ?s1 r)\<lparr>content_top := content_top (boxes ?s' r)\<rparr>"
    by (rule Cons.IH)
  also have "\<dots> = (boxes s r)\<lparr>content_top := content_top (boxes ?s' r)\<rparr>"
    by simp
  finally show ?case
    unfolding step .
qed


lemma row_pass4_other:
  "(\<And>k. i \<le> k \<Longrightarrow> r \<noteq> k # p) \<Longrightarrow> boxes (row_pass4 cs i p al h s) r = boxes s r"
proof (induction cs arbitrary: i s)
  case Nil
  show ?case by simp
next
  case (Cons c cs)
  obtain x where step: "row_pass4 (c # cs) i p al h s =
     row_pass4 cs (Suc i) p al h (set_box (i # p) (\<lambda>b. b\<lparr>content_top := x\<rparr>) s)"
    using row_pass4_Cons by blast
  have "r \<noteq> i # p"
    using Cons.prems [of i] by simp
  moreover have "\<And>k. Suc i \<le> k \<Longrightarrow> r \<noteq> k # p"
    using Cons.prems by simp
  ultimately show ?case
    unfolding step by (simp add: Cons.IH)
qed

lemma column_pass3_Cons:
  "\<exists>acc' x. column_pass3 (c # cs) i p acc s =
     column_pass3 cs (Suc i) p acc' (set_box (i # p) (\<lambda>b. b\<lparr>content_top := x\<rparr>) s)"
  by (cases acc; simp add: Let_def; intro exI; rule refl)

lemma column_pass3_boxes:
  "boxes (snd (column_pass3 cs i p acc s)) r
    = (boxes s r)\<lparr>content_top := content_top (boxes (snd (column_pass3 cs i p acc s)) r)\<rparr>"
proof (induction cs arbitrary: i acc s)
  case Nil
  show ?case by simp
next
  case (Cons c cs)
  obtain acc' x where step: "column_pass3 (c # cs) i p acc s =
     column_pass3 cs (Suc i) p acc' (set_box (i # p) (\<lambda>b. b\<lparr>content_top := x\<rparr>) s)"
    using column_pass3_Cons by blast
  let ?s1 = "set_box (i # p) (\<lambda>b. b\<lparr>content_top := x\<rparr>) s"
  let ?s' = "snd (column_pass3 cs (Suc i) p acc' ?s1)"
  have "boxes ?s' r = (boxes ?s1 r)\<lparr>content_top := content_top (boxes ?s' r)\<rparr>"
    by (rule Cons.IH)
  also have "\<dots> = (boxes s r)\<lparr>content_top := content_top (boxes ?s' r)\<rparr>"
    by simp
  finally show ?case
    unfolding step .
qed

lemma column_pass3_calls [simp]: "calls (snd (column_pass3 cs i p acc s)) = calls s"
proof (induction cs arbitrary: i acc s)
  case Nil
  show ?case by simp
next
  case (Cons c cs)
  obtain acc' x where step: "column_pass3 (c # cs) i p acc s =
     column_pass3 cs (Suc i) p acc' (set_box (i # p) (\<lambda>b. b\<lparr>content_top := x\<rparr>) s)"
    using column_pass3_Cons by blast
  show ?case
    unfolding step by (simp add: Cons.IH)
qed

lemma column_pass3_other:
  "(\<And>k. i \<le> k \<Longrightarrow> r \<noteq> k # p)
    \<Longrightarrow> boxes (snd (column_pass3 cs i p acc s)) r = boxes s r"
proof (induction cs arbitrary: i acc s)
  case Nil
  show ?case by simp
next
  case (Cons c cs)
  obtain acc' x where step: "column_pass3 (c # cs) i p acc s =
     column_pass3 cs (Suc i) p acc' (set_box (i # p) (\<lambda>b. b\<lparr>content_top := x\<rparr>) s)"
    using column_pass3_Cons by blast
  have "r \<noteq> i # p"
    using Cons.prems [of i] by simp
  moreover have "\<And>k. Suc i \<le> k \<Longrightarrow> r \<noteq> k # p"
    using Cons.prems by simp
  ultimately show ?case
    unfolding step by (simp add: Cons.IH)
qed

lemma column_pass4_Cons:
  "\<exists>x. column_pass4 (c # cs) i p td al w s =
     column_pass4 cs (Suc i) p td al w (set_box (i # p) (\<lambda>b. b\<lparr>content_left := x\<rparr>) s)"
  by (simp add: Let_def; intro conjI impI exI; rule refl)

lemma column_pass4_boxes:
  "boxes (column_pass4 cs i p td al w s) r
    = (boxes s r)\<lparr>content_left := content_left (boxes (column_pass4 cs i p td al w s) r)\<rparr>"
proof (induction cs arbitrary: i s)
  case Nil
  show ?case by simp
next
  case (Cons c cs)
  obtain x where step: "column_pass4 (c # cs) i p td al w s =
     column_pass4 cs (Suc i) p td al w (set_box (i # p) (\<lambda>b. b\<lparr>content_left := x\<rparr>) s)"
    using column_pass4_Cons by blast
  let ?s1 = "set_box (i # p) (\<lambda>b. b\<lparr>content_left := x\<rparr>) s"
  let ?s' = "column_pass4 cs (Suc i) p td al w ?s1"
  have "boxes ?s' r = (boxes ?s1 r)\<lparr>content_left := content_left (boxes ?s' r)\<rparr>"
    by (rule Cons.IH)
  also have "\<dots> = (boxes s r)\<lparr>content_left := content_left (boxes ?s' r)\<rparr>"
    by simp
  finally show ?case
    unfolding step .
qed

lemma column_pass4_calls [simp]: "calls (column_pass4 cs i p td al w s) = calls s"
proof (induction cs arbitrary: i s)
  case Nil
  show ?case by simp
next
  case (Cons c cs)
  obtain x where step: "column_pass4 (c # cs) i p td al w s =
     column_pass4 cs (Suc i) p td al w (set_box (i # p) (\<lambda>b. b\<lparr>content_left := x\<rparr>) s)"
    using column_pass4_Cons by blast
  show ?case
    unfolding step by (simp add: Cons.IH)
qed

lemma column_pass4_other:
  "(\<And>k. i \<le> k \<Longrightarrow> r \<noteq> k # p)
    \<Longrightarrow> boxes (column_pass4 cs i p td al w s) r = boxes s r"
proof (induction cs arbitrary: i s)
  case Nil
  show ?case by simp
next
  case (Cons c cs)
  obtain x where step: "column_pass4 (c # cs) i p td al w s =
     column_pass4 cs (Suc i) p td al w (set_box (i # p) (\<lambda>b. b\<lparr>content_left := x\<rparr>) s)"
    using column_pass4_Cons by blast
  have "r \<noteq> i # p"
    using Cons.prems [of i] by simp
  moreover have "\<And>k. Suc i \<le> k \<Longrightarrow> r \<noteq> k # p"
    using Cons.prems by simp
  ultimately show ?case
    unfolding step by (simp add: Cons.IH)
qed

text \<open>The sizes of a box, which the position passes leave alone.\<close>

definition sizes :: "box \<Rightarrow> int \<times> int \<times> int \<times> int" where
  "sizes b = (content_width b, content_height b, min_content_width b, min_content_height b)"

lemma sizes_update [simp]:
  "sizes (b\<lparr>content_left := x\<rparr>) = sizes b" "sizes (b\<lparr>content_top := x\<rparr>) = sizes b"
  "sizes (b\<lparr>content_bottom := x\<rparr>) = sizes b" "sizes (b\<lparr>content_right := x\<rparr>) = sizes b"
  by (simp_all add: sizes_def)

lemma sizes_row_pass3 [simp]:
  "sizes (boxes (snd (row_pass3 cs i p td w acc s)) r) = sizes (boxes s r)"
  by (subst row_pass3_boxes) simp

lemma sizes_row_pass4 [simp]: "sizes (boxes (row_pass4 cs i p al h s) r) = sizes (boxes s r)"
  by (subst row_pass4_boxes) simp

lemma sizes_column_pass3 [simp]:
  "sizes (boxes (snd (column_pass3 cs i p acc s)) r) = sizes (boxes s r)"
  by (subst column_pass3_boxes) simp

lemma sizes_column_pass4 [simp]:
  "sizes (boxes (column_pass4 cs i p td al w s) r) = sizes (boxes s r)"
  by (subst column_pass4_boxes) simp




lemma layout_row_childrenE:
  assumes "layout_row_children L n p aw ah uw uh s = (r, s')"
  obtains ft mf w1 mw1 rw s1 w2 mw2 s2 off h3 mh3 s3 where
    "row_pass1 L (children n) 0 p ah (0, 0, 0, 0, aw) s = ((ft, mf, w1, mw1, rw), s1)"
    "row_pass2 L (children n) 0 p ah (row_quantum (children n) ft mf rw) (w1, mw1) s1
      = ((w2, mw2), s2)"
    "row_pass3 (children n) 0 p (text_direction (style n)) (if uw then max w2 aw else w2)
      (0, 0, 0) s2 = ((off, h3, mh3), s3)"
    "s' = row_pass4 (children n) 0 p (align_items (style n)) (if uh then max h3 ah else h3) s3"
    "r = (mw2, if uw then max w2 aw else w2, mh3, if uh then max h3 ah else h3)"
proof -
  obtain ft mf w1 mw1 rw s1 where
    1: "row_pass1 L (children n) 0 p ah (0, 0, 0, 0, aw) s = ((ft, mf, w1, mw1, rw), s1)"
    by (metis prod.exhaust)
  obtain w2 mw2 s2 where
    2: "row_pass2 L (children n) 0 p ah (row_quantum (children n) ft mf rw) (w1, mw1) s1
      = ((w2, mw2), s2)"
    by (metis prod.exhaust)
  obtain off h3 mh3 s3 where
    3: "row_pass3 (children n) 0 p (text_direction (style n)) (if uw then max w2 aw else w2)
      (0, 0, 0) s2 = ((off, h3, mh3), s3)"
    by (metis prod.exhaust)
  have "s' = row_pass4 (children n) 0 p (align_items (style n)) (if uh then max h3 ah else h3) s3
    \<and> r = (mw2, if uw then max w2 aw else w2, mh3, if uh then max h3 ah else h3)"
    using assms unfolding layout_row_children_def 1 Let_def prod.case 2 3 by auto
  with 1 2 3 show ?thesis
    using that by blast
qed

lemma layout_column_childrenE:
  assumes "layout_column_children L n p aw ah uw uh s = (r, s')"
  obtains ft mf h1 mh1 rh s1 h2 mh2 s2 off w3 mw3 s3 where
    "column_pass1 L (children n) 0 p aw (0, 0, 0, 0, ah) s = ((ft, mf, h1, mh1, rh), s1)"
    "column_pass2 L (children n) 0 p aw (column_quantum (children n) ft mf rh) (h1, mh1) s1
      = ((h2, mh2), s2)"
    "column_pass3 (children n) 0 p (0, 0, 0) s2 = ((off, w3, mw3), s3)"
    "s' = column_pass4 (children n) 0 p (text_direction (style n)) (align_items (style n))
      (if uw then max w3 aw else w3) s3"
    "r = (mw3, if uw then max w3 aw else w3, mh2, if uh then max h2 ah else h2)"
proof -
  obtain ft mf h1 mh1 rh s1 where
    1: "column_pass1 L (children n) 0 p aw (0, 0, 0, 0, ah) s = ((ft, mf, h1, mh1, rh), s1)"
    by (metis prod.exhaust)
  obtain h2 mh2 s2 where
    2: "column_pass2 L (children n) 0 p aw (column_quantum (children n) ft mf rh) (h1, mh1) s1
      = ((h2, mh2), s2)"
    by (metis prod.exhaust)
  obtain off w3 mw3 s3 where
    3: "column_pass3 (children n) 0 p (0, 0, 0) s2 = ((off, w3, mw3), s3)"
    by (metis prod.exhaust)
  have "s' = column_pass4 (children n) 0 p (text_direction (style n)) (align_items (style n))
      (if uw then max w3 aw else w3) s3
    \<and> r = (mw3, if uw then max w3 aw else w3, mh2, if uh then max h2 ah else h2)"
    using assms unfolding layout_column_children_def 1 Let_def prod.case 2 3 by auto
  with 1 2 3 show ?thesis
    using that by blast
qed

subsection \<open>Which children each pass lays out\<close>

text \<open>
  The children of a row that pass 1 leaves to pass 2: no explicit width, a flex weight,
  and an intrinsic width that is absent or flexible. Likewise for a column.
\<close>

definition row_deferred :: "node \<Rightarrow> bool" where
  "row_deferred c \<longleftrightarrow> width (style c) = None \<and> flex (style c) \<noteq> 0
     \<and> (case intrinsic_width c of Some (fixed v) \<Rightarrow> False | _ \<Rightarrow> True)"

definition column_deferred :: "node \<Rightarrow> bool" where
  "column_deferred c \<longleftrightarrow> height (style c) = None \<and> flex (style c) \<noteq> 0
     \<and> (case intrinsic_height c of Some (fixed v) \<Rightarrow> False | _ \<Rightarrow> True)"

text \<open>
  \<open>lays L D A p cs i s s'\<close>: \<open>s'\<close> comes from \<open>s\<close> by going through the children \<open>cs\<close>
  (the first of index \<open>i\<close>, the parent at \<open>p\<close>) in order and calling the method on exactly
  those that satisfy \<open>D\<close>, with arguments that satisfy \<open>A\<close>.
\<close>

inductive lays ::
  "layout_method \<Rightarrow> (node \<Rightarrow> bool) \<Rightarrow> (node \<Rightarrow> rat \<Rightarrow> rat \<Rightarrow> bool \<Rightarrow> bool \<Rightarrow> bool) \<Rightarrow> path
    \<Rightarrow> node list \<Rightarrow> nat \<Rightarrow> state \<Rightarrow> state \<Rightarrow> bool"
  for L D A p where
  lays_Nil: "lays L D A p [] i s s"
| lays_skip: "\<not> D c \<Longrightarrow> lays L D A p cs (Suc i) s s' \<Longrightarrow> lays L D A p (c # cs) i s s'"
| lays_call: "D c \<Longrightarrow> A c a b u v \<Longrightarrow> lays L D A p cs (Suc i) (L c (i # p) a b u v s) s'
    \<Longrightarrow> lays L D A p (c # cs) i s s'"

lemma row_pass1_child_deferred:
  "row_deferred c \<Longrightarrow> snd (row_pass1_child L c q ah acc s) = s"
  by (cases acc)
    (auto simp: row_deferred_def row_pass1_child_def Let_def split: option.splits intrinsic.splits)

lemma row_pass1_child_laid:
  "\<not> row_deferred c \<Longrightarrow>
    \<exists>a. snd (row_pass1_child L c q ah acc s) = L c q a ah False (direction (style c) = ROW) s"
  by (cases acc)
    (auto simp: row_deferred_def row_pass1_child_def Let_def split: option.splits intrinsic.splits)

lemma row_pass2_child_laid:
  "row_deferred c \<Longrightarrow>
    \<exists>a. snd (row_pass2_child L c q ah qu acc s) = L c q a ah True (direction (style c) = ROW) s"
  by (cases acc)
    (auto simp: row_deferred_def row_pass2_child_def Let_def split: option.splits intrinsic.splits)

lemma row_pass2_child_skipped:
  "\<not> row_deferred c \<Longrightarrow> snd (row_pass2_child L c q ah qu acc s) = s"
  by (cases acc)
    (auto simp: row_deferred_def row_pass2_child_def Let_def split: option.splits intrinsic.splits)

lemma column_pass1_child_deferred:
  "column_deferred c \<Longrightarrow> snd (column_pass1_child L c q aw acc s) = s"
  by (cases acc)
    (auto simp: column_deferred_def column_pass1_child_def Let_def
      split: option.splits intrinsic.splits)

lemma column_pass1_child_laid:
  "\<not> column_deferred c \<Longrightarrow>
    \<exists>b. snd (column_pass1_child L c q aw acc s)
      = L c q aw b (direction (style c) = COLUMN) False s"
  by (cases acc)
    (auto simp: column_deferred_def column_pass1_child_def Let_def
      split: option.splits intrinsic.splits)

lemma column_pass2_child_laid:
  "column_deferred c \<Longrightarrow>
    \<exists>b. snd (column_pass2_child L c q aw qu acc s)
      = L c q aw b (direction (style c) = COLUMN) True s"
  by (cases acc)
    (auto simp: column_deferred_def column_pass2_child_def Let_def
      split: option.splits intrinsic.splits)

lemma column_pass2_child_skipped:
  "\<not> column_deferred c \<Longrightarrow> snd (column_pass2_child L c q aw qu acc s) = s"
  by (cases acc)
    (auto simp: column_deferred_def column_pass2_child_def Let_def
      split: option.splits intrinsic.splits)

lemma row_pass1_lays:
  "lays L (\<lambda>c. \<not> row_deferred c)
     (\<lambda>c a b u v. b = ah \<and> \<not> u \<and> (v \<longleftrightarrow> direction (style c) = ROW))
     p cs i s (snd (row_pass1 L cs i p ah acc s))"
proof (induction cs arbitrary: i acc s)
  case Nil
  show ?case by (simp add: lays_Nil)
next
  case (Cons c cs)
  obtain acc' s1 where step: "row_pass1_child L c (i # p) ah acc s = (acc', s1)"
    by (cases "row_pass1_child L c (i # p) ah acc s")
  have tail: "snd (row_pass1 L (c # cs) i p ah acc s) = snd (row_pass1 L cs (Suc i) p ah acc' s1)"
    by (simp add: step)
  show ?case
  proof (cases "row_deferred c")
    case True
    then have "s1 = s"
      using row_pass1_child_deferred [of c L "i # p" ah acc s] step by simp
    with True show ?thesis
      unfolding tail by (auto intro: lays_skip Cons.IH)
  next
    case False
    then obtain a where "s1 = L c (i # p) a ah False (direction (style c) = ROW) s"
      using row_pass1_child_laid [of c L "i # p" ah acc s] step by auto
    with False show ?thesis
      unfolding tail by (auto intro!: lays_call Cons.IH)
  qed
qed


lemma row_pass2_lays:
  "lays L row_deferred
     (\<lambda>c a b u v. b = ah \<and> u \<and> (v \<longleftrightarrow> direction (style c) = ROW))
     p cs i s (snd (row_pass2 L cs i p ah qu acc s))"
proof (induction cs arbitrary: i acc s)
  case Nil
  show ?case by (simp add: lays_Nil)
next
  case (Cons c cs)
  obtain acc' s1 where step: "row_pass2_child L c (i # p) ah qu acc s = (acc', s1)"
    by (cases "row_pass2_child L c (i # p) ah qu acc s")
  have tail: "snd (row_pass2 L (c # cs) i p ah qu acc s)
      = snd (row_pass2 L cs (Suc i) p ah qu acc' s1)"
    by (simp add: step)
  show ?case
  proof (cases "row_deferred c")
    case False
    then have "s1 = s"
      using row_pass2_child_skipped [of c L "i # p" ah qu acc s] step by simp
    with False show ?thesis
      unfolding tail by (auto intro: lays_skip Cons.IH)
  next
    case True
    then obtain a where "s1 = L c (i # p) a ah True (direction (style c) = ROW) s"
      using row_pass2_child_laid [of c L "i # p" ah qu acc s] step by auto
    with True show ?thesis
      unfolding tail by (auto intro!: lays_call Cons.IH)
  qed
qed

lemma column_pass1_lays:
  "lays L (\<lambda>c. \<not> column_deferred c)
     (\<lambda>c a b u v. a = aw \<and> (u \<longleftrightarrow> direction (style c) = COLUMN) \<and> \<not> v)
     p cs i s (snd (column_pass1 L cs i p aw acc s))"
proof (induction cs arbitrary: i acc s)
  case Nil
  show ?case by (simp add: lays_Nil)
next
  case (Cons c cs)
  obtain acc' s1 where step: "column_pass1_child L c (i # p) aw acc s = (acc', s1)"
    by (cases "column_pass1_child L c (i # p) aw acc s")
  have tail: "snd (column_pass1 L (c # cs) i p aw acc s)
      = snd (column_pass1 L cs (Suc i) p aw acc' s1)"
    by (simp add: step)
  show ?case
  proof (cases "column_deferred c")
    case True
    then have "s1 = s"
      using column_pass1_child_deferred [of c L "i # p" aw acc s] step by simp
    with True show ?thesis
      unfolding tail by (auto intro: lays_skip Cons.IH)
  next
    case False
    then obtain b where "s1 = L c (i # p) aw b (direction (style c) = COLUMN) False s"
      using column_pass1_child_laid [of c L "i # p" aw acc s] step by auto
    with False show ?thesis
      unfolding tail by (auto intro!: lays_call Cons.IH)
  qed
qed

lemma column_pass2_lays:
  "lays L column_deferred
     (\<lambda>c a b u v. a = aw \<and> (u \<longleftrightarrow> direction (style c) = COLUMN) \<and> v)
     p cs i s (snd (column_pass2 L cs i p aw qu acc s))"
proof (induction cs arbitrary: i acc s)
  case Nil
  show ?case by (simp add: lays_Nil)
next
  case (Cons c cs)
  obtain acc' s1 where step: "column_pass2_child L c (i # p) aw qu acc s = (acc', s1)"
    by (cases "column_pass2_child L c (i # p) aw qu acc s")
  have tail: "snd (column_pass2 L (c # cs) i p aw qu acc s)
      = snd (column_pass2 L cs (Suc i) p aw qu acc' s1)"
    by (simp add: step)
  show ?case
  proof (cases "column_deferred c")
    case False
    then have "s1 = s"
      using column_pass2_child_skipped [of c L "i # p" aw qu acc s] step by simp
    with False show ?thesis
      unfolding tail by (auto intro: lays_skip Cons.IH)
  next
    case True
    then obtain b where "s1 = L c (i # p) aw b (direction (style c) = COLUMN) True s"
      using column_pass2_child_laid [of c L "i # p" aw qu acc s] step by auto
    with True show ?thesis
      unfolding tail by (auto intro!: lays_call Cons.IH)
  qed
qed

subsection \<open>Addresses\<close>

lemma suffix_Cons_same: "suffix (i # p) r \<Longrightarrow> suffix (j # p) r \<Longrightarrow> i = j"
  by (auto simp: suffix_def append_eq_append_conv2 Cons_eq_append_conv)

lemma not_suffix_Cons_self [simp]: "\<not> suffix (i # p) p"
  by (auto simp: suffix_def)

text \<open>The nodes of a tree with their addresses, the root of the tree being at \<open>p\<close>.\<close>

fun nodes :: "node \<Rightarrow> path \<Rightarrow> (path \<times> node) list"
  and nodes_list :: "node list \<Rightarrow> nat \<Rightarrow> path \<Rightarrow> (path \<times> node) list" where
  "nodes (Node st iw ih cs) p = (p, Node st iw ih cs) # nodes_list cs 0 p"
| "nodes_list [] i p = []"
| "nodes_list (c # cs) i p = nodes c (i # p) @ nodes_list cs (Suc i) p"

lemma nodes_suffix:
  "(r, m) \<in> set (nodes n p) \<Longrightarrow> suffix p r"
  "(r, m) \<in> set (nodes_list cs i p) \<Longrightarrow> \<exists>k\<ge>i. suffix (k # p) r"
proof (induction n p and cs i p arbitrary: r m and r m rule: nodes_nodes_list.induct)
  case (1 st iw ih cs p)
  then show ?case
    by (auto dest: suffix_ConsD)
next
  case (2 i p)
  then show ?case by simp
next
  case (3 c cs i p)
  from "3.prems" consider "(r, m) \<in> set (nodes c (i # p))"
    | "(r, m) \<in> set (nodes_list cs (Suc i) p)"
    by auto
  then show ?case
  proof cases
    case 1
    then have "suffix (i # p) r" by (rule "3.IH"(1))
    then show ?thesis by blast
  next
    case 2
    then obtain k where "k \<ge> Suc i" "suffix (k # p) r"
      using "3.IH"(2) by blast
    then show ?thesis
      by (meson Suc_leD)
  qed
qed

text \<open>A method is local when it leaves the boxes outside the subtree of the node alone.\<close>

definition local_method :: "layout_method \<Rightarrow> node \<Rightarrow> bool" where
  "local_method L c \<longleftrightarrow>
     (\<forall>q a b u v s r. \<not> suffix q r \<longrightarrow> boxes (L c q a b u v s) r = boxes s r)"

lemma lays_frame:
  assumes "lays L D A p cs i s s'"
    and "\<forall>c\<in>set cs. local_method L c"
    and "\<And>k. i \<le> k \<Longrightarrow> \<not> suffix (k # p) r"
  shows "boxes s' r = boxes s r"
  using assms
proof (induction arbitrary: r rule: lays.induct)
  case (lays_Nil i s)
  show ?case by simp
next
  case (lays_skip c cs i s s')
  show ?case
    by (rule lays_skip.IH) (simp_all add: lays_skip.prems)
next
  case (lays_call c a b u v cs i s s')
  have "boxes s' r = boxes (L c (i # p) a b u v s) r"
    by (rule lays_call.IH) (simp_all add: lays_call.prems)
  also have "\<dots> = boxes s r"
    using lays_call.prems(1) lays_call.prems(2) [of i]
    by (simp add: local_method_def)
  finally show ?case .
qed


subsection \<open>The layout of a node, step by step\<close>

text \<open>
  The state of \<open>layout_node\<close> after the children have been laid out (lines 310-393), with
  the four sizes that the last step of \<open>layout_node\<close> starts from.
\<close>

definition record_call :: "path \<Rightarrow> rat \<Rightarrow> rat \<Rightarrow> bool \<Rightarrow> bool \<Rightarrow> state \<Rightarrow> state" where
  "record_call p aw ah uw uh s =
     s\<lparr>calls := calls s @
        [\<lparr>call_node = p, call_alloc_width = aw, call_alloc_height = ah,
          call_use_all_width = uw, call_use_all_height = uh\<rparr>]\<rparr>"

definition available_width_of :: "node \<Rightarrow> rat \<Rightarrow> rat \<times> rat" where
  "available_width_of n aw =
     establish_available (width (style n)) (intrinsic_width n) aw
       (margin_left (style n)) (margin_right (style n))"

definition available_height_of :: "node \<Rightarrow> rat \<Rightarrow> rat \<times> rat" where
  "available_height_of n ah =
     establish_available (height (style n)) (intrinsic_height n) ah
       (margin_top (style n)) (margin_bottom (style n))"

definition after_children ::
  "node \<Rightarrow> path \<Rightarrow> rat \<Rightarrow> rat \<Rightarrow> bool \<Rightarrow> bool \<Rightarrow> state \<Rightarrow> (rat \<times> rat \<times> rat \<times> rat) \<times> state" where
  "after_children n p aw ah uw uh s =
     (if children n \<noteq> [] then
        (if direction (style n) = COLUMN then
           layout_column_children layout_node n p (fst (available_width_of n aw))
             (fst (available_height_of n ah)) uw uh (record_call p aw ah uw uh s)
         else
           layout_row_children layout_node n p (fst (available_width_of n aw))
             (fst (available_height_of n ah)) uw uh (record_call p aw ah uw uh s))
      else ((snd (available_width_of n aw), fst (available_width_of n aw),
             snd (available_height_of n ah), fst (available_height_of n ah)),
            record_call p aw ah uw uh s))"

lemma layout_node_after_children:
  "layout_node n p aw ah uw uh s =
     (case after_children n p aw ah uw uh s of
        ((min_width, width', min_height, height'), s1) \<Rightarrow>
          set_box p
            (\<lambda>b. b\<lparr>content_width :=
                     py_int (case width (style n) of Some v \<Rightarrow> of_int v | None \<Rightarrow> width'),
                   content_height :=
                     py_int (case height (style n) of Some v \<Rightarrow> of_int v | None \<Rightarrow> height'),
                   min_content_width :=
                     py_int (case width (style n) of Some v \<Rightarrow> of_int v | None \<Rightarrow> min_width),
                   min_content_height :=
                     py_int (case height (style n) of Some v \<Rightarrow> of_int v
                       | None \<Rightarrow> min_height)\<rparr>) s1)"
  by (cases n)
    (simp add: layout_node.simps after_children_def record_call_def available_width_of_def
      available_height_of_def Let_def split: prod.splits option.splits)

lemma boxes_record_call [simp]: "boxes (record_call p aw ah uw uh s) = boxes s"
  by (simp add: record_call_def)

lemma layout_row_children_frame:
  assumes loc: "\<forall>c\<in>set (children n). local_method L c"
    and r: "\<And>k. \<not> suffix (k # p) r"
  shows "boxes (snd (layout_row_children L n p aw ah uw uh s)) r = boxes s r"
proof -
  obtain ft mf w1 mw1 rw s1 w2 mw2 s2 off h3 mh3 s3 where
    p1: "row_pass1 L (children n) 0 p ah (0, 0, 0, 0, aw) s = ((ft, mf, w1, mw1, rw), s1)"
    and p2: "row_pass2 L (children n) 0 p ah (row_quantum (children n) ft mf rw) (w1, mw1) s1
      = ((w2, mw2), s2)"
    and p3: "row_pass3 (children n) 0 p (text_direction (style n))
      (if uw then max w2 aw else w2) (0, 0, 0) s2 = ((off, h3, mh3), s3)"
    and s': "snd (layout_row_children L n p aw ah uw uh s)
      = row_pass4 (children n) 0 p (align_items (style n)) (if uh then max h3 ah else h3) s3"
    using layout_row_childrenE [OF prod.collapse [symmetric]] by metis
  have ne: "\<And>k. r \<noteq> k # p"
    using r by auto
  have "boxes (snd (layout_row_children L n p aw ah uw uh s)) r = boxes s3 r"
    unfolding s' by (rule row_pass4_other) (rule ne)
  also have "\<dots> = boxes s2 r"
    using row_pass3_other [of 0 r p "children n" "text_direction (style n)"
        "if uw then max w2 aw else w2" "(0, 0, 0)" s2] ne
    unfolding p3 by simp
  also have "\<dots> = boxes s1 r"
    using lays_frame [OF row_pass2_lays [of L ah p "children n" 0 s1
          "row_quantum (children n) ft mf rw" "(w1, mw1)"], of r] loc r
    unfolding p2 by simp
  also have "\<dots> = boxes s r"
    using lays_frame [OF row_pass1_lays [of L ah p "children n" 0 s "(0, 0, 0, 0, aw)"], of r]
      loc r
    unfolding p1 by simp
  finally show ?thesis .
qed

lemma layout_column_children_frame:
  assumes loc: "\<forall>c\<in>set (children n). local_method L c"
    and r: "\<And>k. \<not> suffix (k # p) r"
  shows "boxes (snd (layout_column_children L n p aw ah uw uh s)) r = boxes s r"
proof -
  obtain ft mf h1 mh1 rh s1 h2 mh2 s2 off w3 mw3 s3 where
    p1: "column_pass1 L (children n) 0 p aw (0, 0, 0, 0, ah) s = ((ft, mf, h1, mh1, rh), s1)"
    and p2: "column_pass2 L (children n) 0 p aw (column_quantum (children n) ft mf rh)
      (h1, mh1) s1 = ((h2, mh2), s2)"
    and p3: "column_pass3 (children n) 0 p (0, 0, 0) s2 = ((off, w3, mw3), s3)"
    and s': "snd (layout_column_children L n p aw ah uw uh s)
      = column_pass4 (children n) 0 p (text_direction (style n)) (align_items (style n))
          (if uw then max w3 aw else w3) s3"
    using layout_column_childrenE [OF prod.collapse [symmetric]] by metis
  have ne: "\<And>k. r \<noteq> k # p"
    using r by auto
  have "boxes (snd (layout_column_children L n p aw ah uw uh s)) r = boxes s3 r"
    unfolding s' by (rule column_pass4_other) (rule ne)
  also have "\<dots> = boxes s2 r"
    using column_pass3_other [of 0 r p "children n" "(0, 0, 0)" s2] ne
    unfolding p3 by simp
  also have "\<dots> = boxes s1 r"
    using lays_frame [OF column_pass2_lays [of L aw p "children n" 0 s1
          "column_quantum (children n) ft mf rh" "(h1, mh1)"], of r] loc r
    unfolding p2 by simp
  also have "\<dots> = boxes s r"
    using lays_frame [OF column_pass1_lays [of L aw p "children n" 0 s "(0, 0, 0, 0, ah)"],
        of r] loc r
    unfolding p1 by simp
  finally show ?thesis .
qed

lemma after_children_frame:
  assumes loc: "\<forall>c\<in>set (children n). local_method layout_node c"
    and r: "\<And>k. \<not> suffix (k # p) r"
  shows "boxes (snd (after_children n p aw ah uw uh s)) r = boxes s r"
  unfolding after_children_def
  by (simp add: layout_row_children_frame [OF loc r] layout_column_children_frame [OF loc r])

lemma boxes_layout_node_other:
  "r \<noteq> p \<Longrightarrow> boxes (layout_node n p aw ah uw uh s) r
    = boxes (snd (after_children n p aw ah uw uh s)) r"
  by (simp add: layout_node_after_children split: prod.splits)

lemma layout_node_local: "local_method layout_node n"
proof (induction n)
  case (Node st iw ih cs)
  have loc: "\<forall>c\<in>set (children (Node st iw ih cs)). local_method layout_node c"
    using Node.IH by simp
  show ?case
    unfolding local_method_def
  proof (intro allI impI)
    fix q r :: path and a b u v s
    assume nr: "\<not> suffix q r"
    then have ne: "r \<noteq> q" by auto
    have k: "\<And>k. \<not> suffix (k # q) r"
      using nr by (auto dest: suffix_ConsD)
    show "boxes (layout_node (Node st iw ih cs) q a b u v s) r = boxes s r"
      using ne after_children_frame [OF loc k, of a b u v s]
      by (simp add: boxes_layout_node_other del: layout_node.simps)
  qed
qed

subsection \<open>Properties of every node of the tree\<close>

text \<open>The children of a node with their addresses.\<close>

fun kids :: "node list \<Rightarrow> nat \<Rightarrow> path \<Rightarrow> (path \<times> node) list" where
  "kids [] i p = []"
| "kids (c # cs) i p = (i # p, c) # kids cs (Suc i) p"

lemma kids_address:
  "(q, c) \<in> set (kids cs i p) \<Longrightarrow> c \<in> set cs \<and> (\<exists>k\<ge>i. q = k # p)"
proof (induction cs arbitrary: i)
  case Nil
  then show ?case by simp
next
  case (Cons a cs)
  then show ?case
    by (auto dest!: Cons.IH intro: Suc_leD)
qed

lemma nodes_list_kids:
  "set (nodes_list cs i p) = (\<Union>(q, c)\<in>set (kids cs i p). set (nodes c q))"
  by (induction cs arbitrary: i) auto

lemma nodes_children:
  "set (nodes n p) = insert (p, n) (\<Union>(q, c)\<in>set (kids (children n) 0 p). set (nodes c q))"
  by (cases n) (simp add: nodes_list_kids)

lemma suffix_Cons_other:
  assumes "suffix (i # p) r" and "k \<noteq> i"
  shows "\<not> suffix (k # p) r"
proof
  assume "suffix (k # p) r"
  then have "k = i"
    using assms(1) by (rule suffix_Cons_same)
  with assms(2) show False
    by simp
qed

text \<open>
  \<open>good Q n p s\<close>: the sizes of the box of every node of the tree \<open>n\<close> at \<open>p\<close> satisfy
  \<open>Q\<close> in the state \<open>s\<close>.
\<close>

definition good :: "(node \<Rightarrow> int \<times> int \<times> int \<times> int \<Rightarrow> bool) \<Rightarrow> node \<Rightarrow> path \<Rightarrow> state \<Rightarrow> bool" where
  "good Q n p s \<longleftrightarrow> (\<forall>x\<in>set (nodes n p). Q (snd x) (sizes (boxes s (fst x))))"

lemma good_cong_sizes:
  assumes "good Q n p s"
    and "\<And>r. suffix p r \<Longrightarrow> sizes (boxes s' r) = sizes (boxes s r)"
  shows "good Q n p s'"
  unfolding good_def
proof
  fix x assume x: "x \<in> set (nodes n p)"
  then have "suffix p (fst x)"
    using nodes_suffix(1) [of "fst x" "snd x" n p] by simp
  then have "sizes (boxes s' (fst x)) = sizes (boxes s (fst x))"
    by (rule assms(2))
  then show "Q (snd x) (sizes (boxes s' (fst x)))"
    using assms(1) x by (simp add: good_def)
qed

lemma lays_good:
  assumes "lays L D A p cs i s s'"
    and "\<forall>c\<in>set cs. local_method L c"
    and "\<forall>c\<in>set cs. \<forall>q a b u v t. good Q c q (L c q a b u v t)"
  shows "\<forall>x\<in>set (kids cs i p).
    (D (snd x) \<longrightarrow> good Q (snd x) (fst x) s')
    \<and> (\<not> D (snd x) \<longrightarrow> (\<forall>r. suffix (fst x) r \<longrightarrow> boxes s' r = boxes s r))"
  using assms
proof (induction rule: lays.induct)
  case (lays_Nil i s)
  show ?case by simp
next
  case (lays_skip c cs i s s')
  have tail: "lays L D A p cs (Suc i) s s'"
    by (rule lays_skip.hyps)
  have loc: "\<forall>c\<in>set cs. local_method L c"
    using lays_skip.prems by simp
  have here: "\<forall>r. suffix (i # p) r \<longrightarrow> boxes s' r = boxes s r"
  proof (intro allI impI)
    fix r assume "suffix (i # p) r"
    then have "\<And>k. Suc i \<le> k \<Longrightarrow> \<not> suffix (k # p) r"
      by (rule suffix_Cons_other) simp
    then show "boxes s' r = boxes s r"
      by (rule lays_frame [OF tail loc])
  qed
  have good_cs: "\<forall>c\<in>set cs. \<forall>q a b u v t. good Q c q (L c q a b u v t)"
    using lays_skip.prems(2) by (simp del: layout_node.simps)
  have rest: "\<forall>x\<in>set (kids cs (Suc i) p).
    (D (snd x) \<longrightarrow> good Q (snd x) (fst x) s')
    \<and> (\<not> D (snd x) \<longrightarrow> (\<forall>r. suffix (fst x) r \<longrightarrow> boxes s' r = boxes s r))"
    by (rule lays_skip.IH [OF loc good_cs])
  show ?case
  proof
    fix x assume "x \<in> set (kids (c # cs) i p)"
    then consider "x = (i # p, c)" | "x \<in> set (kids cs (Suc i) p)"
      by auto
    then show "(D (snd x) \<longrightarrow> good Q (snd x) (fst x) s')
      \<and> (\<not> D (snd x) \<longrightarrow> (\<forall>r. suffix (fst x) r \<longrightarrow> boxes s' r = boxes s r))"
    proof cases
      case 1
      with here lays_skip.hyps(1) show ?thesis by (simp only: fst_conv snd_conv simp_thms)
    next
      case 2
      with rest show ?thesis by blast
    qed
  qed
next
  case (lays_call c a b u v cs i s s')
  let ?s1 = "L c (i # p) a b u v s"
  have tail: "lays L D A p cs (Suc i) ?s1 s'"
    by (rule lays_call.hyps)
  have loc: "\<forall>c\<in>set cs. local_method L c"
    using lays_call.prems by simp
  have locc: "local_method L c"
    using lays_call.prems by simp
  have g: "good Q c (i # p) ?s1"
    using lays_call.prems(2) by (simp del: layout_node.simps)
  have eq: "\<And>r. suffix (i # p) r \<Longrightarrow> boxes s' r = boxes ?s1 r"
  proof -
    fix r assume "suffix (i # p) r"
    then have "\<And>k. Suc i \<le> k \<Longrightarrow> \<not> suffix (k # p) r"
      by (rule suffix_Cons_other) simp
    then show "boxes s' r = boxes ?s1 r"
      by (rule lays_frame [OF tail loc])
  qed
  have here: "good Q c (i # p) s'"
    by (rule good_cong_sizes [OF g]) (simp only: eq)
  have good_cs: "\<forall>c\<in>set cs. \<forall>q a b u v t. good Q c q (L c q a b u v t)"
    using lays_call.prems(2) by (simp del: layout_node.simps)
  have rest: "\<forall>x\<in>set (kids cs (Suc i) p).
    (D (snd x) \<longrightarrow> good Q (snd x) (fst x) s')
    \<and> (\<not> D (snd x) \<longrightarrow> (\<forall>r. suffix (fst x) r \<longrightarrow> boxes s' r = boxes ?s1 r))"
    by (rule lays_call.IH [OF loc good_cs])
  have prev: "\<And>x r. x \<in> set (kids cs (Suc i) p) \<Longrightarrow> suffix (fst x) r
    \<Longrightarrow> boxes ?s1 r = boxes s r"
  proof -
    fix x r assume x: "x \<in> set (kids cs (Suc i) p)" and r: "suffix (fst x) r"
    obtain k where "Suc i \<le> k" "fst x = k # p"
      using kids_address [of "fst x" "snd x" cs "Suc i" p] x by auto
    then have "\<not> suffix (i # p) r"
      using r suffix_Cons_other [of k p r i] by simp
    then show "boxes ?s1 r = boxes s r"
      using locc by (simp add: local_method_def)
  qed
  show ?case
  proof
    fix x assume "x \<in> set (kids (c # cs) i p)"
    then consider "x = (i # p, c)" | "x \<in> set (kids cs (Suc i) p)"
      by auto
    then show "(D (snd x) \<longrightarrow> good Q (snd x) (fst x) s')
      \<and> (\<not> D (snd x) \<longrightarrow> (\<forall>r. suffix (fst x) r \<longrightarrow> boxes s' r = boxes s r))"
    proof cases
      case 1
      with here lays_call.hyps(1) show ?thesis by (simp only: fst_conv snd_conv simp_thms)
    next
      case 2
      have a: "D (snd x) \<longrightarrow> good Q (snd x) (fst x) s'"
        using rest 2 by blast
      have b: "\<not> D (snd x) \<longrightarrow> (\<forall>r. suffix (fst x) r \<longrightarrow> boxes s' r = boxes s r)"
      proof (intro impI allI)
        fix r assume nd: "\<not> D (snd x)" and sr: "suffix (fst x) r"
        then have "boxes s' r = boxes ?s1 r"
          using rest 2 by blast
        also have "\<dots> = boxes s r"
          by (rule prev [OF 2 sr])
        finally show "boxes s' r = boxes s r" .
      qed
      from a b show ?thesis ..
    qed
  qed
qed


lemma layout_row_children_good:
  assumes loc: "\<forall>c\<in>set (children n). local_method L c"
    and gd: "\<forall>c\<in>set (children n). \<forall>q a b u v t. good Q c q (L c q a b u v t)"
  shows "\<forall>x\<in>set (kids (children n) 0 p).
    good Q (snd x) (fst x) (snd (layout_row_children L n p aw ah uw uh s))"
proof
  fix x assume x: "x \<in> set (kids (children n) 0 p)"
  obtain ft mf w1 mw1 rw s1 w2 mw2 s2 off h3 mh3 s3 where
    p1: "row_pass1 L (children n) 0 p ah (0, 0, 0, 0, aw) s = ((ft, mf, w1, mw1, rw), s1)"
    and p2: "row_pass2 L (children n) 0 p ah (row_quantum (children n) ft mf rw) (w1, mw1) s1
      = ((w2, mw2), s2)"
    and p3: "row_pass3 (children n) 0 p (text_direction (style n))
      (if uw then max w2 aw else w2) (0, 0, 0) s2 = ((off, h3, mh3), s3)"
    and s': "snd (layout_row_children L n p aw ah uw uh s)
      = row_pass4 (children n) 0 p (align_items (style n)) (if uh then max h3 ah else h3) s3"
    using layout_row_childrenE [OF prod.collapse [symmetric]] by metis
  have l1: "lays L (\<lambda>c. \<not> row_deferred c)
     (\<lambda>c a b u v. b = ah \<and> \<not> u \<and> (v \<longleftrightarrow> direction (style c) = ROW))
     p (children n) 0 s s1"
    using row_pass1_lays [of L ah p "children n" 0 s "(0, 0, 0, 0, aw)"] unfolding p1 by simp
  have l2: "lays L row_deferred
     (\<lambda>c a b u v. b = ah \<and> u \<and> (v \<longleftrightarrow> direction (style c) = ROW))
     p (children n) 0 s1 s2"
    using row_pass2_lays [of L ah p "children n" 0 s1 "row_quantum (children n) ft mf rw"
        "(w1, mw1)"] unfolding p2 by simp
  have s3: "s3 = snd (row_pass3 (children n) 0 p (text_direction (style n))
      (if uw then max w2 aw else w2) (0, 0, 0) s2)"
    unfolding p3 by simp
  have sz: "\<And>r. sizes (boxes (snd (layout_row_children L n p aw ah uw uh s)) r)
      = sizes (boxes s2 r)"
    unfolding s' s3 by (simp only: sizes_row_pass4 sizes_row_pass3)
  note g1 = lays_good [OF l1 loc gd, rule_format, OF x]
  note g2 = lays_good [OF l2 loc gd, rule_format, OF x]
  have "good Q (snd x) (fst x) s2"
  proof (cases "row_deferred (snd x)")
    case True
    with g2 show ?thesis by simp
  next
    case False
    with g1 have "good Q (snd x) (fst x) s1"
      by simp
    moreover have "\<And>r. suffix (fst x) r \<Longrightarrow> sizes (boxes s2 r) = sizes (boxes s1 r)"
      using g2 False by simp
    ultimately show ?thesis
      by (rule good_cong_sizes)
  qed
  then show "good Q (snd x) (fst x) (snd (layout_row_children L n p aw ah uw uh s))"
    by (rule good_cong_sizes) (rule sz)
qed

lemma layout_column_children_good:
  assumes loc: "\<forall>c\<in>set (children n). local_method L c"
    and gd: "\<forall>c\<in>set (children n). \<forall>q a b u v t. good Q c q (L c q a b u v t)"
  shows "\<forall>x\<in>set (kids (children n) 0 p).
    good Q (snd x) (fst x) (snd (layout_column_children L n p aw ah uw uh s))"
proof
  fix x assume x: "x \<in> set (kids (children n) 0 p)"
  obtain ft mf h1 mh1 rh s1 h2 mh2 s2 off w3 mw3 s3 where
    p1: "column_pass1 L (children n) 0 p aw (0, 0, 0, 0, ah) s = ((ft, mf, h1, mh1, rh), s1)"
    and p2: "column_pass2 L (children n) 0 p aw (column_quantum (children n) ft mf rh)
      (h1, mh1) s1 = ((h2, mh2), s2)"
    and p3: "column_pass3 (children n) 0 p (0, 0, 0) s2 = ((off, w3, mw3), s3)"
    and s': "snd (layout_column_children L n p aw ah uw uh s)
      = column_pass4 (children n) 0 p (text_direction (style n)) (align_items (style n))
          (if uw then max w3 aw else w3) s3"
    using layout_column_childrenE [OF prod.collapse [symmetric]] by metis
  have l1: "lays L (\<lambda>c. \<not> column_deferred c)
     (\<lambda>c a b u v. a = aw \<and> (u \<longleftrightarrow> direction (style c) = COLUMN) \<and> \<not> v)
     p (children n) 0 s s1"
    using column_pass1_lays [of L aw p "children n" 0 s "(0, 0, 0, 0, ah)"]
    unfolding p1 by simp
  have l2: "lays L column_deferred
     (\<lambda>c a b u v. a = aw \<and> (u \<longleftrightarrow> direction (style c) = COLUMN) \<and> v)
     p (children n) 0 s1 s2"
    using column_pass2_lays [of L aw p "children n" 0 s1
        "column_quantum (children n) ft mf rh" "(h1, mh1)"] unfolding p2 by simp
  have s3: "s3 = snd (column_pass3 (children n) 0 p (0, 0, 0) s2)"
    unfolding p3 by simp
  have sz: "\<And>r. sizes (boxes (snd (layout_column_children L n p aw ah uw uh s)) r)
      = sizes (boxes s2 r)"
    unfolding s' s3 by (simp only: sizes_column_pass4 sizes_column_pass3)
  note g1 = lays_good [OF l1 loc gd, rule_format, OF x]
  note g2 = lays_good [OF l2 loc gd, rule_format, OF x]
  have "good Q (snd x) (fst x) s2"
  proof (cases "column_deferred (snd x)")
    case True
    with g2 show ?thesis by simp
  next
    case False
    with g1 have "good Q (snd x) (fst x) s1"
      by simp
    moreover have "\<And>r. suffix (fst x) r \<Longrightarrow> sizes (boxes s2 r) = sizes (boxes s1 r)"
      using g2 False by simp
    ultimately show ?thesis
      by (rule good_cong_sizes)
  qed
  then show "good Q (snd x) (fst x) (snd (layout_column_children L n p aw ah uw uh s))"
    by (rule good_cong_sizes) (rule sz)
qed

lemma sizes_record_call [simp]: "sizes (boxes (record_call p aw ah uw uh s) r) = sizes (boxes s r)"
  by simp

lemma after_children_good:
  assumes loc: "\<forall>c\<in>set (children n). local_method layout_node c"
    and gd: "\<forall>c\<in>set (children n). \<forall>q a b u v t. good Q c q (layout_node c q a b u v t)"
  shows "\<forall>x\<in>set (kids (children n) 0 p).
    good Q (snd x) (fst x) (snd (after_children n p aw ah uw uh s))"
proof (cases "children n = []")
  case True
  then show ?thesis by simp
next
  case False
  then show ?thesis
    unfolding after_children_def
    using layout_row_children_good [OF loc gd, of p] layout_column_children_good [OF loc gd, of p]
    by simp
qed

text \<open>
  A property of the sizes that the last step of \<open>layout_node\<close> establishes for the node
  itself, whenever the layout of each child establishes it in the subtree of that child,
  holds for every node of the tree after \<open>layout_node\<close>.
\<close>

lemma layout_node_good:
  assumes step: "\<And>n p aw ah uw uh s.
    (\<forall>c\<in>set (children n). \<forall>q a b u v t. good Q c q (layout_node c q a b u v t))
    \<Longrightarrow> Q n (sizes (boxes (layout_node n p aw ah uw uh s) p))"
  shows "good Q n p (layout_node n p aw ah uw uh s)"
proof (induction n arbitrary: p aw ah uw uh s)
  case (Node st iw ih cs)
  let ?n = "Node st iw ih cs"
  have loc: "\<forall>c\<in>set (children ?n). local_method layout_node c"
    by (simp add: layout_node_local)
  have gd: "\<forall>c\<in>set (children ?n). \<forall>q a b u v t. good Q c q (layout_node c q a b u v t)"
    using Node.IH by simp
  have root: "Q ?n (sizes (boxes (layout_node ?n p aw ah uw uh s) p))"
    by (rule step [of ?n p aw ah uw uh s, OF gd])
  show ?case
    unfolding good_def
  proof
    fix x assume "x \<in> set (nodes ?n p)"
    then have "x \<in> insert (p, ?n)
        (\<Union>(q, c)\<in>set (kids (children ?n) 0 p). set (nodes c q))"
      by (simp only: nodes_children [of ?n p])
    then consider "x = (p, ?n)"
      | y where "y \<in> set (kids (children ?n) 0 p)" "x \<in> set (nodes (snd y) (fst y))"
      by auto
    then show "Q (snd x) (sizes (boxes (layout_node ?n p aw ah uw uh s) (fst x)))"
    proof cases
      case 1
      with root show ?thesis by (simp del: layout_node.simps)
    next
      case 2
      have g: "good Q (snd y) (fst y) (snd (after_children ?n p aw ah uw uh s))"
        using after_children_good [OF loc gd] 2(1) by blast
      obtain k where k: "fst y = k # p"
        using kids_address [of "fst y" "snd y" "children ?n" 0 p] 2(1) by auto
      have "suffix (k # p) (fst x)"
        using nodes_suffix(1) [of "fst x" "snd x" "snd y" "fst y"] 2(2) k by simp
      then have "fst x \<noteq> p"
        by auto
      then have "boxes (layout_node ?n p aw ah uw uh s) (fst x)
          = boxes (snd (after_children ?n p aw ah uw uh s)) (fst x)"
        by (rule boxes_layout_node_other)
      then show ?thesis
        using g 2(2) unfolding good_def by (simp del: layout_node.simps)
    qed
  qed
qed

lemma sizes_layout_node:
  "sizes (boxes (layout_node n p aw ah uw uh s) p) =
     (case fst (after_children n p aw ah uw uh s) of
        (min_width, width', min_height, height') \<Rightarrow>
          (py_int (case width (style n) of Some v \<Rightarrow> of_int v | None \<Rightarrow> width'),
           py_int (case height (style n) of Some v \<Rightarrow> of_int v | None \<Rightarrow> height'),
           py_int (case width (style n) of Some v \<Rightarrow> of_int v | None \<Rightarrow> min_width),
           py_int (case height (style n) of Some v \<Rightarrow> of_int v | None \<Rightarrow> min_height)))"
  by (simp add: layout_node_after_children sizes_def split: prod.splits)

lemma sizes_layout:
  "sizes (boxes (layout n vp s) r)
    = sizes (boxes (layout_node n [] (of_int (viewport_width vp)) (of_int (viewport_height vp))
        True True s) r)"
  by (simp add: layout_def Let_def)

subsection \<open>Explicit sizes\<close>

definition explicit_sizes :: "node \<Rightarrow> int \<times> int \<times> int \<times> int \<Rightarrow> bool" where
  "explicit_sizes m z =
     (case z of (cw, ch, mcw, mch) \<Rightarrow>
        (\<forall>W. width (style m) = Some W \<longrightarrow> cw = W \<and> mcw = W)
        \<and> (\<forall>H. height (style m) = Some H \<longrightarrow> ch = H \<and> mch = H))"

lemma explicit_sizes_layout_node:
  "explicit_sizes n (sizes (boxes (layout_node n p aw ah uw uh s) p))"
  by (simp add: sizes_layout_node explicit_sizes_def split: prod.splits)

text \<open>
  Claim C1. After \<open>layout\<close>, every node of the tree whose style sets an explicit width
  \<open>W\<close> has \<open>content_width = W\<close> and \<open>min_content_width = W\<close>, whatever its children
  and its intrinsic size are; and likewise for an explicit height.
\<close>

theorem explicit_size_dominance:
  assumes "(r, m) \<in> set (nodes tree [])"
  shows "(width (style m) = Some W \<longrightarrow>
      content_width (boxes (layout tree vp s) r) = W
      \<and> min_content_width (boxes (layout tree vp s) r) = W)
    \<and> (height (style m) = Some H \<longrightarrow>
      content_height (boxes (layout tree vp s) r) = H
      \<and> min_content_height (boxes (layout tree vp s) r) = H)"
proof -
  have "good explicit_sizes tree [] (layout_node tree [] (of_int (viewport_width vp))
      (of_int (viewport_height vp)) True True s)"
    by (rule layout_node_good) (rule explicit_sizes_layout_node)
  then have "explicit_sizes (snd (r, m)) (sizes (boxes (layout_node tree []
      (of_int (viewport_width vp)) (of_int (viewport_height vp)) True True s) (fst (r, m))))"
    unfolding good_def using assms by (rule bspec)
  then have "explicit_sizes m (sizes (boxes (layout tree vp s) r))"
    by (simp only: sizes_layout fst_conv snd_conv)
  then show ?thesis
    by (simp add: explicit_sizes_def sizes_def)
qed

theorem explicit_size_dominance_witness:
  "content_width (boxes (layout
       (Node (initial_style\<lparr>width := Some 50\<rparr>) (Some (at_least 80)) None
         [Node (initial_style\<lparr>width := Some 200, height := Some 10\<rparr>) (Some (fixed 7)) None
           [Node initial_style None None []]])
       \<lparr>viewport_width = 100, viewport_height = 100\<rparr> initial_state) [0]) = 200
   \<and> min_content_width (boxes (layout
       (Node (initial_style\<lparr>width := Some 50\<rparr>) (Some (at_least 80)) None
         [Node (initial_style\<lparr>width := Some 200, height := Some 10\<rparr>) (Some (fixed 7)) None
           [Node initial_style None None []]])
       \<lparr>viewport_width = 100, viewport_height = 100\<rparr> initial_state) [0]) = 200
   \<and> content_height (boxes (layout
       (Node (initial_style\<lparr>width := Some 50\<rparr>) (Some (at_least 80)) None
         [Node (initial_style\<lparr>width := Some 200, height := Some 10\<rparr>) (Some (fixed 7)) None
           [Node initial_style None None []]])
       \<lparr>viewport_width = 100, viewport_height = 100\<rparr> initial_state) [0]) = 10
   \<and> min_content_height (boxes (layout
       (Node (initial_style\<lparr>width := Some 50\<rparr>) (Some (at_least 80)) None
         [Node (initial_style\<lparr>width := Some 200, height := Some 10\<rparr>) (Some (fixed 7)) None
           [Node initial_style None None []]])
       \<lparr>viewport_width = 100, viewport_height = 100\<rparr> initial_state) [0]) = 10"
  using explicit_size_dominance [where r = "[0]"
      and m = "Node (initial_style\<lparr>width := Some 200, height := Some 10\<rparr>) (Some (fixed 7)) None
           [Node initial_style None None []]"
      and tree = "Node (initial_style\<lparr>width := Some 50\<rparr>) (Some (at_least 80)) None
         [Node (initial_style\<lparr>width := Some 200, height := Some 10\<rparr>) (Some (fixed 7)) None
           [Node initial_style None None []]]"
      and W = 200 and H = 10
      and vp = "\<lparr>viewport_width = 100, viewport_height = 100\<rparr>" and s = initial_state]
  by simp


subsection \<open>The minimum sizes are below the sizes\<close>

definition min_le :: "node \<Rightarrow> int \<times> int \<times> int \<times> int \<Rightarrow> bool" where
  "min_le m z = (case z of (cw, ch, mcw, mch) \<Rightarrow> mcw \<le> cw \<and> mch \<le> ch)"

lemma min_le_sizes:
  "min_le m (sizes b)
    \<longleftrightarrow> min_content_width b \<le> content_width b \<and> min_content_height b \<le> content_height b"
  by (simp add: min_le_def sizes_def)

lemma good_root: "good Q n p s \<Longrightarrow> Q n (sizes (boxes s p))"
proof -
  assume g: "good Q n p s"
  have "(p, n) \<in> set (nodes n p)"
    by (cases n) simp
  with g have "Q (snd (p, n)) (sizes (boxes s (fst (p, n))))"
    unfolding good_def by (rule bspec)
  then show ?thesis
    by (simp only: fst_conv snd_conv)
qed

lemma establish_available_le:
  "snd (establish_available sp intr alloc m1 m2) \<le> fst (establish_available sp intr alloc m1 m2)"
  by (simp add: establish_available_def Let_def split: option.splits intrinsic.splits)

lemma row_pass1_child_min_le:
  assumes "row_pass1_child L c q ah (ft, mf, w, mw, rw) s = ((ft', mf', w', mw', rw'), s')"
    and "mw \<le> w"
    and "\<And>a b u v t. min_le c (sizes (boxes (L c q a b u v t) q))"
  shows "mw' \<le> w'"
proof -
  have own: "\<And>a b u v t. (of_int (min_content_width (boxes (L c q a b u v t) q)) :: rat)
      \<le> of_int (content_width (boxes (L c q a b u v t) q))"
    using assms(3) by (simp add: min_le_sizes)
  show ?thesis
    using assms(1,2) unfolding row_pass1_child_def
    by (auto simp: Let_def split: if_splits option.splits intrinsic.splits
        intro!: add_mono own)
qed

lemma row_pass2_child_min_le:
  assumes "row_pass2_child L c q ah qu (w, mw) s = ((w', mw'), s')"
    and "mw \<le> w"
    and "\<And>a b u v t. min_le c (sizes (boxes (L c q a b u v t) q))"
  shows "mw' \<le> w'"
proof -
  have own: "\<And>a b u v t. (of_int (min_content_width (boxes (L c q a b u v t) q)) :: rat)
      \<le> of_int (content_width (boxes (L c q a b u v t) q))"
    using assms(3) by (simp add: min_le_sizes)
  show ?thesis
    using assms(1,2) unfolding row_pass2_child_def
    by (auto simp: Let_def split: if_splits option.splits intrinsic.splits
        intro!: add_mono own)
qed

lemma column_pass1_child_min_le:
  assumes "column_pass1_child L c q aw (ft, mf, h, mh, rh) s = ((ft', mf', h', mh', rh'), s')"
    and "mh \<le> h"
    and "\<And>a b u v t. min_le c (sizes (boxes (L c q a b u v t) q))"
  shows "mh' \<le> h'"
proof -
  have own: "\<And>a b u v t. (of_int (min_content_height (boxes (L c q a b u v t) q)) :: rat)
      \<le> of_int (content_height (boxes (L c q a b u v t) q))"
    using assms(3) by (simp add: min_le_sizes)
  show ?thesis
    using assms(1,2) unfolding column_pass1_child_def
    by (auto simp: Let_def split: if_splits option.splits intrinsic.splits
        intro!: add_mono own)
qed

lemma column_pass2_child_min_le:
  assumes "column_pass2_child L c q aw qu (h, mh) s = ((h', mh'), s')"
    and "mh \<le> h"
    and "\<And>a b u v t. min_le c (sizes (boxes (L c q a b u v t) q))"
  shows "mh' \<le> h'"
proof -
  have own: "\<And>a b u v t. (of_int (min_content_height (boxes (L c q a b u v t) q)) :: rat)
      \<le> of_int (content_height (boxes (L c q a b u v t) q))"
    using assms(3) by (simp add: min_le_sizes)
  show ?thesis
    using assms(1,2) unfolding column_pass2_child_def
    by (auto simp: Let_def split: if_splits option.splits intrinsic.splits
        intro!: add_mono own)
qed


lemma row_pass1_min_le:
  assumes "row_pass1 L cs i p ah (ft, mf, w, mw, rw) s = ((ft', mf', w', mw', rw'), s')"
    and "mw \<le> w"
    and "\<forall>c\<in>set cs. \<forall>q a b u v t. min_le c (sizes (boxes (L c q a b u v t) q))"
  shows "mw' \<le> w'"
  using assms
proof (induction cs arbitrary: i ft mf w mw rw s)
  case Nil
  then show ?case by simp
next
  case (Cons c cs)
  obtain ft1 mf1 w1 mw1 rw1 s1 where
    step: "row_pass1_child L c (i # p) ah (ft, mf, w, mw, rw) s = ((ft1, mf1, w1, mw1, rw1), s1)"
    by (metis prod.exhaust)
  have own: "\<And>a b u v t. min_le c (sizes (boxes (L c (i # p) a b u v t) (i # p)))"
    using Cons.prems(3) by simp
  have le1: "mw1 \<le> w1"
    by (rule row_pass1_child_min_le [OF step Cons.prems(2) own])
  have tail: "row_pass1 L cs (Suc i) p ah (ft1, mf1, w1, mw1, rw1) s1 = ((ft', mf', w', mw', rw'), s')"
    using Cons.prems(1) by (simp add: step)
  have rest: "\<forall>c\<in>set cs. \<forall>q a b u v t. min_le c (sizes (boxes (L c q a b u v t) q))"
    using Cons.prems(3) by simp
  show ?case
    by (rule Cons.IH [OF tail le1 rest])
qed

lemma row_pass2_min_le:
  assumes "row_pass2 L cs i p ah qu (w, mw) s = ((w', mw'), s')"
    and "mw \<le> w"
    and "\<forall>c\<in>set cs. \<forall>q a b u v t. min_le c (sizes (boxes (L c q a b u v t) q))"
  shows "mw' \<le> w'"
  using assms
proof (induction cs arbitrary: i w mw s)
  case Nil
  then show ?case by simp
next
  case (Cons c cs)
  obtain w1 mw1 s1 where
    step: "row_pass2_child L c (i # p) ah qu (w, mw) s = ((w1, mw1), s1)"
    by (metis prod.exhaust)
  have own: "\<And>a b u v t. min_le c (sizes (boxes (L c (i # p) a b u v t) (i # p)))"
    using Cons.prems(3) by simp
  have le1: "mw1 \<le> w1"
    by (rule row_pass2_child_min_le [OF step Cons.prems(2) own])
  have tail: "row_pass2 L cs (Suc i) p ah qu (w1, mw1) s1 = ((w', mw'), s')"
    using Cons.prems(1) by (simp add: step)
  have rest: "\<forall>c\<in>set cs. \<forall>q a b u v t. min_le c (sizes (boxes (L c q a b u v t) q))"
    using Cons.prems(3) by simp
  show ?case
    by (rule Cons.IH [OF tail le1 rest])
qed

lemma column_pass1_min_le:
  assumes "column_pass1 L cs i p aw (ft, mf, w, mw, rw) s = ((ft', mf', w', mw', rw'), s')"
    and "mw \<le> w"
    and "\<forall>c\<in>set cs. \<forall>q a b u v t. min_le c (sizes (boxes (L c q a b u v t) q))"
  shows "mw' \<le> w'"
  using assms
proof (induction cs arbitrary: i ft mf w mw rw s)
  case Nil
  then show ?case by simp
next
  case (Cons c cs)
  obtain ft1 mf1 w1 mw1 rw1 s1 where
    step: "column_pass1_child L c (i # p) aw (ft, mf, w, mw, rw) s = ((ft1, mf1, w1, mw1, rw1), s1)"
    by (metis prod.exhaust)
  have own: "\<And>a b u v t. min_le c (sizes (boxes (L c (i # p) a b u v t) (i # p)))"
    using Cons.prems(3) by simp
  have le1: "mw1 \<le> w1"
    by (rule column_pass1_child_min_le [OF step Cons.prems(2) own])
  have tail: "column_pass1 L cs (Suc i) p aw (ft1, mf1, w1, mw1, rw1) s1 = ((ft', mf', w', mw', rw'), s')"
    using Cons.prems(1) by (simp add: step)
  have rest: "\<forall>c\<in>set cs. \<forall>q a b u v t. min_le c (sizes (boxes (L c q a b u v t) q))"
    using Cons.prems(3) by simp
  show ?case
    by (rule Cons.IH [OF tail le1 rest])
qed

lemma column_pass2_min_le:
  assumes "column_pass2 L cs i p aw qu (w, mw) s = ((w', mw'), s')"
    and "mw \<le> w"
    and "\<forall>c\<in>set cs. \<forall>q a b u v t. min_le c (sizes (boxes (L c q a b u v t) q))"
  shows "mw' \<le> w'"
  using assms
proof (induction cs arbitrary: i w mw s)
  case Nil
  then show ?case by simp
next
  case (Cons c cs)
  obtain w1 mw1 s1 where
    step: "column_pass2_child L c (i # p) aw qu (w, mw) s = ((w1, mw1), s1)"
    by (metis prod.exhaust)
  have own: "\<And>a b u v t. min_le c (sizes (boxes (L c (i # p) a b u v t) (i # p)))"
    using Cons.prems(3) by simp
  have le1: "mw1 \<le> w1"
    by (rule column_pass2_child_min_le [OF step Cons.prems(2) own])
  have tail: "column_pass2 L cs (Suc i) p aw qu (w1, mw1) s1 = ((w', mw'), s')"
    using Cons.prems(1) by (simp add: step)
  have rest: "\<forall>c\<in>set cs. \<forall>q a b u v t. min_le c (sizes (boxes (L c q a b u v t) q))"
    using Cons.prems(3) by simp
  show ?case
    by (rule Cons.IH [OF tail le1 rest])
qed

lemma sizes_set_box_position [simp]:
  "sizes (boxes (set_box q (\<lambda>b. b\<lparr>content_left := x\<rparr>) s) r) = sizes (boxes s r)"
  "sizes (boxes (set_box q (\<lambda>b. b\<lparr>content_top := x\<rparr>) s) r) = sizes (boxes s r)"
  "sizes (boxes (set_box q (\<lambda>b. b\<lparr>content_bottom := x\<rparr>) s) r) = sizes (boxes s r)"
  "sizes (boxes (set_box q (\<lambda>b. b\<lparr>content_right := x\<rparr>) s) r) = sizes (boxes s r)"
  by simp_all

lemma row_pass3_step:
  "\<exists>off1 x. row_pass3 (c # cs) i p td wd (off, h, mh) s =
     row_pass3 cs (Suc i) p td wd
       (off1,
        max h (of_int (margin_top (style c)) + of_int (content_height (boxes s (i # p)))
          + of_int (margin_bottom (style c))),
        max mh (of_int (margin_top (style c)) + of_int (min_content_height (boxes s (i # p)))
          + of_int (margin_bottom (style c))))
       (set_box (i # p) (\<lambda>b. b\<lparr>content_left := x\<rparr>) s)"
  by (cases td; simp add: Let_def; intro exI; rule refl)

lemma row_pass3_min_le:
  assumes "row_pass3 cs i p td wd (off, h, mh) s = ((off', h', mh'), s')"
    and "mh \<le> h"
    and "\<forall>x\<in>set (kids cs i p). min_le (snd x) (sizes (boxes s (fst x)))"
  shows "mh' \<le> h'"
  using assms
proof (induction cs arbitrary: i off h mh s)
  case Nil
  then show ?case by simp
next
  case (Cons c cs)
  let ?h1 = "max h (of_int (margin_top (style c)) + of_int (content_height (boxes s (i # p)))
          + of_int (margin_bottom (style c)))"
  let ?mh1 = "max mh (of_int (margin_top (style c))
          + of_int (min_content_height (boxes s (i # p))) + of_int (margin_bottom (style c)))"
  obtain off1 x where step: "row_pass3 (c # cs) i p td wd (off, h, mh) s =
     row_pass3 cs (Suc i) p td wd (off1, ?h1, ?mh1)
       (set_box (i # p) (\<lambda>b. b\<lparr>content_left := x\<rparr>) s)"
    using row_pass3_step by blast
  let ?s1 = "set_box (i # p) (\<lambda>b. b\<lparr>content_left := x\<rparr>) s"
  have tail: "row_pass3 cs (Suc i) p td wd (off1, ?h1, ?mh1) ?s1 = ((off', h', mh'), s')"
    using Cons.prems(1) unfolding step .
  have "min_content_height (boxes s (i # p)) \<le> content_height (boxes s (i # p))"
    using Cons.prems(3) by (simp add: min_le_sizes)
  then have le1: "?mh1 \<le> ?h1"
    using Cons.prems(2) by (intro max.mono add_mono) simp_all
  have rest: "\<forall>x\<in>set (kids cs (Suc i) p). min_le (snd x) (sizes (boxes ?s1 (fst x)))"
    using Cons.prems(3) by (simp only: sizes_set_box_position kids.simps list.set ball_simps) simp
  show ?case
    by (rule Cons.IH [OF tail le1 rest])
qed

lemma column_pass3_step:
  "\<exists>off1 x. column_pass3 (c # cs) i p (off, w, mw) s =
     column_pass3 cs (Suc i) p
       (off1,
        max w (of_int (content_width (boxes s (i # p))) + of_int (margin_left (style c))
          + of_int (margin_right (style c))),
        max mw (of_int (margin_left (style c)) + of_int (min_content_width (boxes s (i # p)))
          + of_int (margin_right (style c))))
       (set_box (i # p) (\<lambda>b. b\<lparr>content_top := x\<rparr>) s)"
  by (simp add: Let_def; intro exI; rule refl)

lemma column_pass3_min_le:
  assumes "column_pass3 cs i p (off, w, mw) s = ((off', w', mw'), s')"
    and "mw \<le> w"
    and "\<forall>x\<in>set (kids cs i p). min_le (snd x) (sizes (boxes s (fst x)))"
  shows "mw' \<le> w'"
  using assms
proof (induction cs arbitrary: i off w mw s)
  case Nil
  then show ?case by simp
next
  case (Cons c cs)
  let ?w1 = "max w (of_int (content_width (boxes s (i # p))) + of_int (margin_left (style c))
          + of_int (margin_right (style c)))"
  let ?mw1 = "max mw (of_int (margin_left (style c))
          + of_int (min_content_width (boxes s (i # p))) + of_int (margin_right (style c)))"
  obtain off1 x where step: "column_pass3 (c # cs) i p (off, w, mw) s =
     column_pass3 cs (Suc i) p (off1, ?w1, ?mw1)
       (set_box (i # p) (\<lambda>b. b\<lparr>content_top := x\<rparr>) s)"
    using column_pass3_step by blast
  let ?s1 = "set_box (i # p) (\<lambda>b. b\<lparr>content_top := x\<rparr>) s"
  have tail: "column_pass3 cs (Suc i) p (off1, ?w1, ?mw1) ?s1 = ((off', w', mw'), s')"
    using Cons.prems(1) unfolding step .
  have "min_content_width (boxes s (i # p)) \<le> content_width (boxes s (i # p))"
    using Cons.prems(3) by (simp add: min_le_sizes)
  then have le1: "?mw1 \<le> ?w1"
    using Cons.prems(2) by (intro max.mono) simp_all
  have rest: "\<forall>x\<in>set (kids cs (Suc i) p). min_le (snd x) (sizes (boxes ?s1 (fst x)))"
    using Cons.prems(3) by (simp only: sizes_set_box_position kids.simps list.set ball_simps) simp
  show ?case
    by (rule Cons.IH [OF tail le1 rest])
qed


lemma layout_row_children_min_le:
  assumes loc: "\<forall>c\<in>set (children n). local_method L c"
    and gd: "\<forall>c\<in>set (children n). \<forall>q a b u v t. good min_le c q (L c q a b u v t)"
  shows "case fst (layout_row_children L n p aw ah uw uh s) of
    (mw, w, mh, h) \<Rightarrow> mw \<le> w \<and> mh \<le> h"
proof -
  obtain r s' where run: "layout_row_children L n p aw ah uw uh s = (r, s')"
    by (metis prod.exhaust)
  from run obtain ft mf w1 mw1 rw s1 w2 mw2 s2 off h3 mh3 s3 where
    p1: "row_pass1 L (children n) 0 p ah (0, 0, 0, 0, aw) s = ((ft, mf, w1, mw1, rw), s1)"
    and p2: "row_pass2 L (children n) 0 p ah (row_quantum (children n) ft mf rw) (w1, mw1) s1
      = ((w2, mw2), s2)"
    and p3: "row_pass3 (children n) 0 p (text_direction (style n))
      (if uw then max w2 aw else w2) (0, 0, 0) s2 = ((off, h3, mh3), s3)"
    and s': "s' = row_pass4 (children n) 0 p (align_items (style n))
      (if uh then max h3 ah else h3) s3"
    and r: "r = (mw2, if uw then max w2 aw else w2, mh3, if uh then max h3 ah else h3)"
    by (rule layout_row_childrenE)
  have own: "\<forall>c\<in>set (children n). \<forall>q a b u v t.
      min_le c (sizes (boxes (L c q a b u v t) q))"
    using gd good_root by blast
  have le1: "mw1 \<le> w1"
    by (rule row_pass1_min_le [OF p1 _ own]) simp
  have le2: "mw2 \<le> w2"
    by (rule row_pass2_min_le [OF p2 le1 own])
  have s3: "s3 = snd (row_pass3 (children n) 0 p (text_direction (style n))
      (if uw then max w2 aw else w2) (0, 0, 0) s2)"
    unfolding p3 by simp
  have ks: "\<forall>x\<in>set (kids (children n) 0 p). min_le (snd x) (sizes (boxes s2 (fst x)))"
  proof
    fix x assume x: "x \<in> set (kids (children n) 0 p)"
    have "good min_le (snd x) (fst x) (snd (layout_row_children L n p aw ah uw uh s))"
      using layout_row_children_good [OF loc gd] x by blast
    then have "min_le (snd x) (sizes (boxes s' (fst x)))"
      unfolding run snd_conv by (rule good_root)
    moreover have "sizes (boxes s' (fst x)) = sizes (boxes s2 (fst x))"
      unfolding s' s3 by (simp only: sizes_row_pass4 sizes_row_pass3)
    ultimately show "min_le (snd x) (sizes (boxes s2 (fst x)))"
      by simp
  qed
  have le3: "mh3 \<le> h3"
    by (rule row_pass3_min_le [OF p3 _ ks]) simp
  show ?thesis
    unfolding run fst_conv r using le2 le3 by (simp add: le_max_iff_disj)
qed

lemma layout_column_children_min_le:
  assumes loc: "\<forall>c\<in>set (children n). local_method L c"
    and gd: "\<forall>c\<in>set (children n). \<forall>q a b u v t. good min_le c q (L c q a b u v t)"
  shows "case fst (layout_column_children L n p aw ah uw uh s) of
    (mw, w, mh, h) \<Rightarrow> mw \<le> w \<and> mh \<le> h"
proof -
  obtain r s' where run: "layout_column_children L n p aw ah uw uh s = (r, s')"
    by (metis prod.exhaust)
  from run obtain ft mf h1 mh1 rh s1 h2 mh2 s2 off w3 mw3 s3 where
    p1: "column_pass1 L (children n) 0 p aw (0, 0, 0, 0, ah) s = ((ft, mf, h1, mh1, rh), s1)"
    and p2: "column_pass2 L (children n) 0 p aw (column_quantum (children n) ft mf rh)
      (h1, mh1) s1 = ((h2, mh2), s2)"
    and p3: "column_pass3 (children n) 0 p (0, 0, 0) s2 = ((off, w3, mw3), s3)"
    and s': "s' = column_pass4 (children n) 0 p (text_direction (style n))
      (align_items (style n)) (if uw then max w3 aw else w3) s3"
    and r: "r = (mw3, if uw then max w3 aw else w3, mh2, if uh then max h2 ah else h2)"
    by (rule layout_column_childrenE)
  have own: "\<forall>c\<in>set (children n). \<forall>q a b u v t.
      min_le c (sizes (boxes (L c q a b u v t) q))"
    using gd good_root by blast
  have le1: "mh1 \<le> h1"
    by (rule column_pass1_min_le [OF p1 _ own]) simp
  have le2: "mh2 \<le> h2"
    by (rule column_pass2_min_le [OF p2 le1 own])
  have s3: "s3 = snd (column_pass3 (children n) 0 p (0, 0, 0) s2)"
    unfolding p3 by simp
  have ks: "\<forall>x\<in>set (kids (children n) 0 p). min_le (snd x) (sizes (boxes s2 (fst x)))"
  proof
    fix x assume x: "x \<in> set (kids (children n) 0 p)"
    have "good min_le (snd x) (fst x) (snd (layout_column_children L n p aw ah uw uh s))"
      using layout_column_children_good [OF loc gd] x by blast
    then have "min_le (snd x) (sizes (boxes s' (fst x)))"
      unfolding run snd_conv by (rule good_root)
    moreover have "sizes (boxes s' (fst x)) = sizes (boxes s2 (fst x))"
      unfolding s' s3 by (simp only: sizes_column_pass4 sizes_column_pass3)
    ultimately show "min_le (snd x) (sizes (boxes s2 (fst x)))"
      by simp
  qed
  have le3: "mw3 \<le> w3"
    by (rule column_pass3_min_le [OF p3 _ ks]) simp
  show ?thesis
    unfolding run fst_conv r using le2 le3 by (simp add: le_max_iff_disj)
qed

lemma after_children_min_le:
  assumes gd: "\<forall>c\<in>set (children n). \<forall>q a b u v t. good min_le c q (layout_node c q a b u v t)"
  shows "case fst (after_children n p aw ah uw uh s) of
    (mw, w, mh, h) \<Rightarrow> mw \<le> w \<and> mh \<le> h"
proof -
  have loc: "\<forall>c\<in>set (children n). local_method layout_node c"
    by (simp add: layout_node_local)
  show ?thesis
    unfolding after_children_def
    using layout_row_children_min_le [OF loc gd, of p] layout_column_children_min_le [OF loc gd, of p]
    by (simp add: available_width_of_def available_height_of_def establish_available_le)
qed

lemma min_le_layout_node:
  assumes gd: "\<forall>c\<in>set (children n). \<forall>q a b u v t. good min_le c q (layout_node c q a b u v t)"
  shows "min_le n (sizes (boxes (layout_node n p aw ah uw uh s) p))"
  using after_children_min_le [OF gd, of p aw ah uw uh s]
  by (auto simp: sizes_layout_node min_le_def py_int_mono split: prod.splits option.splits)

text \<open>
  Claim C2. After \<open>layout\<close>, every node of the tree has
  \<open>min_content_width \<le> content_width\<close> and \<open>min_content_height \<le> content_height\<close>.
\<close>

theorem min_content_le_content:
  assumes "(r, m) \<in> set (nodes tree [])"
  shows "min_content_width (boxes (layout tree vp s) r) \<le> content_width (boxes (layout tree vp s) r)
    \<and> min_content_height (boxes (layout tree vp s) r)
      \<le> content_height (boxes (layout tree vp s) r)"
proof -
  have "good min_le tree [] (layout_node tree [] (of_int (viewport_width vp))
      (of_int (viewport_height vp)) True True s)"
    by (rule layout_node_good) (rule min_le_layout_node)
  then have "min_le (snd (r, m)) (sizes (boxes (layout_node tree []
      (of_int (viewport_width vp)) (of_int (viewport_height vp)) True True s) (fst (r, m))))"
    unfolding good_def using assms by (rule bspec)
  then have "min_le m (sizes (boxes (layout tree vp s) r))"
    by (simp only: sizes_layout fst_conv snd_conv)
  then show ?thesis
    by (simp add: min_le_sizes)
qed

theorem min_content_le_content_witness:
  "min_content_width (boxes (layout
       (Node initial_style None None
         [Node (initial_style\<lparr>flex := 1\<rparr>) (Some (at_least 30)) (Some (fixed 20)) [],
          Node (initial_style\<lparr>width := Some 40\<rparr>) None None []])
       \<lparr>viewport_width = 100, viewport_height = 80\<rparr> initial_state) [0])
     \<le> content_width (boxes (layout
       (Node initial_style None None
         [Node (initial_style\<lparr>flex := 1\<rparr>) (Some (at_least 30)) (Some (fixed 20)) [],
          Node (initial_style\<lparr>width := Some 40\<rparr>) None None []])
       \<lparr>viewport_width = 100, viewport_height = 80\<rparr> initial_state) [0])
   \<and> min_content_height (boxes (layout
       (Node initial_style None None
         [Node (initial_style\<lparr>flex := 1\<rparr>) (Some (at_least 30)) (Some (fixed 20)) [],
          Node (initial_style\<lparr>width := Some 40\<rparr>) None None []])
       \<lparr>viewport_width = 100, viewport_height = 80\<rparr> initial_state) [0])
     \<le> content_height (boxes (layout
       (Node initial_style None None
         [Node (initial_style\<lparr>flex := 1\<rparr>) (Some (at_least 30)) (Some (fixed 20)) [],
          Node (initial_style\<lparr>width := Some 40\<rparr>) None None []])
       \<lparr>viewport_width = 100, viewport_height = 80\<rparr> initial_state) [0])"
  using min_content_le_content [where r = "[0]"
      and m = "Node (initial_style\<lparr>flex := 1\<rparr>) (Some (at_least 30)) (Some (fixed 20)) []"
      and tree = "Node initial_style None None
         [Node (initial_style\<lparr>flex := 1\<rparr>) (Some (at_least 30)) (Some (fixed 20)) [],
          Node (initial_style\<lparr>width := Some 40\<rparr>) None None []]"
      and vp = "\<lparr>viewport_width = 100, viewport_height = 80\<rparr>" and s = initial_state]
  by simp


subsection \<open>Cross-axis alignment\<close>

lemma content_height_row_pass3 [simp]:
  "content_height (boxes (snd (row_pass3 cs i p td w acc s)) r) = content_height (boxes s r)"
  by (subst row_pass3_boxes) simp

lemma content_height_row_pass4 [simp]:
  "content_height (boxes (row_pass4 cs i p al h s) r) = content_height (boxes s r)"
  by (subst row_pass4_boxes) simp

lemma content_width_column_pass3 [simp]:
  "content_width (boxes (snd (column_pass3 cs i p acc s)) r) = content_width (boxes s r)"
  by (subst column_pass3_boxes) simp

lemma content_width_column_pass4 [simp]:
  "content_width (boxes (column_pass4 cs i p td al w s) r) = content_width (boxes s r)"
  by (subst column_pass4_boxes) simp






lemma py_int_numeral [simp]: "py_int (numeral k) = numeral k" "py_int 0 = 0" "py_int 1 = 1"
  by (simp_all add: py_int_def)
















subsection \<open>Flex proportionality\<close>



subsection \<open>Right-to-left mirroring\<close>



lemma content_left_row_pass4 [simp]:
  "content_left (boxes (row_pass4 cs i p al h s) r) = content_left (boxes s r)"
  by (subst row_pass4_boxes) simp





end
